theory Spec2Isabelle
  imports Main "HOL-Library.AList"
begin

section \<open>The MCP client: data model\<close>

text \<open>
  The development embeds the class \<open>MCPClient\<close> (the protocol client of the repository).
  The client is event driven: every method body runs without interruption up to its
  first \<open>await\<close>, and the events of the platform (a line read from the server, a timer
  that fires, a write that fails) run their callbacks the same way.  Settling a promise
  does not run the code that awaits it: that code is queued and resumes in a later step,
  after whatever else runs first.  The model is a record of the object's fields, extended
  by the platform state the callbacks close over (promises, the queue of code that is
  ready to resume, timers, writes in flight, the frames handed to the transport, the log
  and a clock), and one function per method or callback.
\<close>

subsection \<open>JSON values\<close>

text \<open>
  The value \<open>JSON.parse\<close> returns.  A property that is absent reads as \<open>undefined\<close>,
  which is \<open>None\<close> here.  Numbers are restricted to integers.
\<close>

datatype json =
    JNull
  | JBool bool
  | JNum int
  | JStr string
  | JArr "json list"
  | JObj "(string \<times> json) list"

text \<open>\<open>v.name\<close> for a value that is not \<open>null\<close>: only objects carry the properties read here.\<close>

fun field :: "string \<Rightarrow> json \<Rightarrow> json option" where
  "field name (JObj kvs) = map_of kvs name"
| "field name _ = None"

text \<open>JavaScript truthiness, as used by \<open>if (x)\<close>, \<open>x || y\<close> and \<open>x && y\<close>.\<close>

fun truthy :: "json option \<Rightarrow> bool" where
  "truthy None = False"
| "truthy (Some JNull) = False"
| "truthy (Some (JBool b)) = b"
| "truthy (Some (JNum n)) = (n \<noteq> 0)"
| "truthy (Some (JStr s)) = (s \<noteq> [])"
| "truthy (Some (JArr _)) = True"
| "truthy (Some (JObj _)) = True"

text \<open>\<open>x || d\<close> for an optional value and a default object.\<close>

definition or_else :: "json option \<Rightarrow> json \<Rightarrow> json" where
  "or_else x d = (case x of None \<Rightarrow> d | Some v \<Rightarrow> if truthy (Some v) then v else d)"

subsection \<open>Numbers in template literals\<close>

text \<open>
  A template literal prints a number as \<open>Number.prototype.toString\<close> does.  A number of the
  platform is a double.  An integer below \<open>2 ^ 53\<close> is a double and is printed with all its
  digits.  A larger integer stands for the double nearest to it (ties to the even
  significand); that double is printed with the fewest significant digits that still
  denote it, followed by zeros while it has at most 21 digits, and in exponent form
  beyond; beyond the range of doubles it is \<open>Infinity\<close>.
\<close>

fun digits :: "nat \<Rightarrow> string" where
  "digits n = (if n < 10 then [''0123456789'' ! n]
               else digits (n div 10) @ [''0123456789'' ! (n mod 10)])"

fun bit_length :: "nat \<Rightarrow> nat" where
  "bit_length n = (if n = 0 then 0 else Suc (bit_length (n div 2)))"

definition to_double :: "nat \<Rightarrow> nat" where
  "to_double m =
     (let sh = bit_length m - 53; q = m div 2 ^ sh; r = m mod 2 ^ sh
      in if sh = 0 then m
         else (if 2 ^ sh < 2 * r \<or> (2 * r = 2 ^ sh \<and> odd q) then q + 1 else q) * 2 ^ sh)"

text \<open>
  The number with the fewest significant digits that denotes the double \<open>x\<close>, the nearest
  to \<open>x\<close> among those; \<open>e\<close> counts the digits that may still be replaced by zeros.
\<close>

fun shortest :: "nat \<Rightarrow> nat \<Rightarrow> nat" where
  "shortest x 0 = x"
| "shortest x (Suc e) =
     (let p = 10 ^ Suc e; lo = (x div p) * p; hi = lo + p;
          lo_ok = (to_double lo = x); hi_ok = (to_double hi = x)
      in if lo_ok \<and> hi_ok
         then (if x - lo < hi - x then lo
               else if hi - x < x - lo then hi
               else if even (x div p) then lo else hi)
         else if lo_ok then lo
         else if hi_ok then hi
         else shortest x e)"

definition exponent_form :: "nat \<Rightarrow> string" where
  "exponent_form v =
     (let ds = digits v;
          significant = rev (dropWhile (\<lambda>c. c = CHR ''0'') (rev ds))
      in if length ds \<le> 21 then ds
         else (case significant of
                 [] \<Rightarrow> ds
               | [d] \<Rightarrow> d # ''e+'' @ digits (length ds - 1)
               | d # rest \<Rightarrow> d # CHR ''.'' # rest @ ''e+'' @ digits (length ds - 1)))"

definition show_nat :: "nat \<Rightarrow> string" where
  "show_nat m =
     (if m < 2 ^ 53 then digits m
      else if 2 ^ 1024 \<le> to_double m then ''Infinity''
      else exponent_form (shortest (to_double m) (length (digits (to_double m)) - 1)))"

definition show_int :: "int \<Rightarrow> string" where
  "show_int n = (if n < 0 then CHR ''-'' # show_nat (nat (- n)) else show_nat (nat n))"

text \<open>The string a template literal \<open>${v}\<close> interpolates.\<close>

fun js_string :: "json \<Rightarrow> string" and js_join :: "json list \<Rightarrow> string" where
  "js_string JNull = ''null''"
| "js_string (JBool b) = (if b then ''true'' else ''false'')"
| "js_string (JNum n) = show_int n"
| "js_string (JStr s) = s"
| "js_string (JArr xs) = js_join xs"
| "js_string (JObj kvs) = ''[object Object]''"
| "js_join [] = []"
| "js_join [x] = (if x = JNull then [] else js_string x)"
| "js_join (x # y # ys) = (if x = JNull then [] else js_string x) @ '','' @ js_join (y # ys)"

definition template :: "json option \<Rightarrow> string" where
  "template v = (case v of None \<Rightarrow> ''undefined'' | Some j \<Rightarrow> js_string j)"

subsection \<open>Phases, errors, requests\<close>

datatype phase = Disconnected | Connecting | Connected | Initializing | Ready

fun phase_name :: "phase \<Rightarrow> string" where
  "phase_name Disconnected = ''disconnected''"
| "phase_name Connecting = ''connecting''"
| "phase_name Connected = ''connected''"
| "phase_name Initializing = ''initializing''"
| "phase_name Ready = ''ready''"

text \<open>
  The error classes of \<open>utils/errors.ts\<close> that the client throws, each with its message;
  \<open>MCPError\<close> also carries the error payload of the response.  \<open>OtherError\<close> stands for an
  error of the platform (a \<open>TypeError\<close>, a stream error).
\<close>

datatype error =
    MCPConnectionError string
  | MCPTimeoutError string
  | MCPError string json
  | OtherError string

fun message_of :: "error \<Rightarrow> string" where
  "message_of (MCPConnectionError m) = m"
| "message_of (MCPTimeoutError m) = m"
| "message_of (MCPError m _) = m"
| "message_of (OtherError m) = m"

text \<open>Keys of the pending table: \<open>string | number\<close>.\<close>

datatype req_id = NumId int | StrId string

text \<open>
  The key a received \<open>message.id\<close> denotes in \<open>Map.has\<close> and \<open>Map.get\<close>: a number or a
  string equals a key of the same value; no other value equals a key.
\<close>

fun key_of :: "json \<Rightarrow> req_id option" where
  "key_of (JNum n) = Some (NumId n)"
| "key_of (JStr s) = Some (StrId s)"
| "key_of _ = None"

record request =
  rq_id :: req_id
  rq_method :: string
  rq_params :: "json option"

text \<open>A frame handed to \<open>stdin.write\<close>: the object that \<open>JSON.stringify\<close> serialises.\<close>

datatype frame = RequestFrame request | NotificationFrame json

datatype level = LDebug | LInfo | LWarn | LError

record metrics =
  m_pendingRequests :: nat
  m_bufferSize :: nat
  m_connectionStatus :: nat

record health =
  healthy :: bool
  h_error :: "string option"
  h_metrics :: metrics

text \<open>What a public operation returns to its caller.\<close>

datatype result = RVoid | RJson "json option" | RHealth health

text \<open>How the promise returned by \<open>sendRequest\<close> is settled.\<close>

datatype settlement = Resolved json | Rejected error

text \<open>
  The code that waits for the promise of \<open>sendRequest\<close>: the rest of the public operation
  after its \<open>await\<close>.  The health check keeps the metrics it computed before the call.
\<close>

datatype continuation =
    KInitialize
  | KListTools
  | KListPrompts
  | KListResources
  | KCallTool
  | KGetPrompt
  | KGetResource
  | KHealth metrics

text \<open>
  What the callbacks created by one call of \<open>sendRequest\<close> close over: \<open>request.id\<close> and
  the constant \<open>timeout\<close>.
\<close>

record closure =
  c_id :: req_id
  c_timeout :: int

record MCPClientConfig =
  timeout :: "int option"
  capabilities :: "json option"
  clientInfo :: "json option"

text \<open>
  The fields of the object, then the platform state.  A handle (a natural number) names
  one call of \<open>sendRequest\<close>: the variables its callbacks close over, its promise with
  the \<open>resolve\<close> and \<open>reject\<close> functions, the code that awaits the promise, its timer (the
  time from which the platform may run the callback) and its write (whether it is still
  in flight).  \<open>microtasks\<close> is the queue of the handles whose promise is settled and
  whose awaiting code has not resumed yet; \<open>outcomes\<close> holds what that code gave its
  caller once it has run.  \<open>pendingRequests\<close> keeps insertion order, as a \<open>Map\<close> does.
\<close>

record client =
  config :: MCPClientConfig
  process :: bool
  stdin :: bool
  stdout :: bool
  stderr :: bool
  connectionStatus :: phase
  serverCapabilities :: "json option"
  serverInfo :: "json option"
  protocolVersion :: "json option"
  pendingRequests :: "(req_id \<times> nat) list"
  nextRequestId :: int
  buffer :: string
  nextHandle :: nat
  closures :: "nat \<Rightarrow> closure option"
  promises :: "nat \<Rightarrow> settlement option"
  awaiting :: "nat \<Rightarrow> continuation option"
  microtasks :: "nat list"
  outcomes :: "nat \<Rightarrow> (error + result) option"
  timers :: "nat \<Rightarrow> int option"
  writes :: "nat \<Rightarrow> bool"
  written :: "frame list"
  log :: "(level \<times> string) list"
  now :: int

text \<open>
  What a call of a public operation gives back at once: it failed before it sent
  anything, it returned, or it waits for the promise of the handle; then its outcome
  appears under the handle in \<open>outcomes\<close> when its remaining code has run.
\<close>

datatype call = Failed error | Returned result | Suspended nat

definition logged :: "level \<Rightarrow> string \<Rightarrow> client \<Rightarrow> client" where
  "logged l m s = s\<lparr>log := log s @ [(l, m)]\<rparr>"

definition init :: "MCPClientConfig \<Rightarrow> client" where
  "init cfg = \<lparr>config = cfg, process = False, stdin = False, stdout = False, stderr = False,
     connectionStatus = Disconnected, serverCapabilities = None, serverInfo = None,
     protocolVersion = None, pendingRequests = [], nextRequestId = 1, buffer = [],
     nextHandle = 0, closures = (\<lambda>_. None), promises = (\<lambda>_. None), awaiting = (\<lambda>_. None),
     microtasks = [], outcomes = (\<lambda>_. None), timers = (\<lambda>_. None), writes = (\<lambda>_. False),
     written = [], log = [], now = 0\<rparr>"

section \<open>The request correlator\<close>

definition getNextRequestId :: "client \<Rightarrow> int \<times> client" where
  "getNextRequestId s = (nextRequestId s, s\<lparr>nextRequestId := nextRequestId s + 1\<rparr>)"

definition ensureReady :: "client \<Rightarrow> error option" where
  "ensureReady s =
     (if connectionStatus s \<noteq> Ready
      then Some (MCPConnectionError
                  (''Client not ready, current status: '' @ phase_name (connectionStatus s)))
      else None)"

text \<open>\<open>timeoutMs || this.config.timeout || 30000\<close>: an absent number and \<open>0\<close> are both falsy.\<close>

definition effective_timeout :: "int option \<Rightarrow> int option \<Rightarrow> int" where
  "effective_timeout timeoutMs configured =
     (case timeoutMs of
        Some t \<Rightarrow> if t \<noteq> 0 then t
                  else (case configured of Some c \<Rightarrow> if c \<noteq> 0 then c else 30000 | None \<Rightarrow> 30000)
      | None \<Rightarrow> (case configured of Some c \<Rightarrow> if c \<noteq> 0 then c else 30000 | None \<Rightarrow> 30000))"

text \<open>
  What \<open>setTimeout\<close> guarantees: with a delay between 1 and \<open>2 ^ 31 - 1\<close> milliseconds
  the timer fires no earlier than this delay after it was armed.  A delay outside this
  range is not kept by the platform, which puts a short one in its place: such a timer
  has no lower bound that the client can rely on, and may fire at once.
\<close>

definition timer_delay :: "int \<Rightarrow> int" where
  "timer_delay d = (if 1 \<le> d \<and> d \<le> 2147483647 then d else 0)"

text \<open>
  \<open>sendRequest\<close> up to the point where its promise is returned.  It is an \<open>async\<close>
  function: when the guard throws, the promise it returns is rejected already, nothing is
  registered, and the caller that awaits the promise resumes later like any other.
  Otherwise the callbacks are created with the request id and the bound, the entry is put
  into the pending table (\<open>Map.set\<close>), the timer is armed with the bound as its delay, the
  frame is handed to the transport and the debug line is logged.  The new promise is
  pending; the write completes or fails later.
\<close>

definition sendRequest ::
  "request \<Rightarrow> int option \<Rightarrow> continuation \<Rightarrow> client \<Rightarrow> nat \<times> client" where
  "sendRequest req timeoutMs k s =
     (let h = nextHandle s
      in if connectionStatus s = Disconnected \<or> \<not> stdin s
         then (h,
               s\<lparr>nextHandle := h + 1,
                 closures := (closures s)(h := None),
                 promises := (promises s)(h \<mapsto> Rejected (MCPConnectionError ''Client not connected'')),
                 awaiting := (awaiting s)(h \<mapsto> k),
                 microtasks := microtasks s @ [h],
                 outcomes := (outcomes s)(h := None),
                 timers := (timers s)(h := None),
                 writes := (writes s)(h := False)\<rparr>)
         else
           let tmo = effective_timeout timeoutMs (timeout (config s))
           in (h,
               s\<lparr>pendingRequests := AList.update (rq_id req) h (pendingRequests s),
                 nextHandle := h + 1,
                 closures := (closures s)(h \<mapsto> \<lparr>c_id = rq_id req, c_timeout = tmo\<rparr>),
                 promises := (promises s)(h := None),
                 awaiting := (awaiting s)(h \<mapsto> k),
                 outcomes := (outcomes s)(h := None),
                 timers := (timers s)(h \<mapsto> now s + timer_delay tmo),
                 writes := (writes s)(h := True),
                 written := written s @ [RequestFrame req],
                 log := log s @ [(LDebug, ''Request sent'')]\<rparr>))"

section \<open>The public operations after their await\<close>

text \<open>\<open>if (response.error) throw new MCPError(`<prefix>${response.error.message}`, response.error)\<close>\<close>

definition response_error :: "string \<Rightarrow> json \<Rightarrow> error option" where
  "response_error prefix response =
     (case field ''error'' response of
        None \<Rightarrow> None
      | Some err \<Rightarrow>
          if truthy (Some err)
          then Some (MCPError (prefix @ template (field ''message'' err)) err)
          else None)"

text \<open>The \<open>catch\<close> block of \<open>initialize\<close>.\<close>

definition initialize_failed :: "error \<Rightarrow> client \<Rightarrow> (error + result) \<times> client" where
  "initialize_failed e s =
     (Inl e, s\<lparr>connectionStatus := Connected,
               log := log s @ [(LError, ''Failed to initialize MCP session'')]\<rparr>)"

text \<open>Reading a property of \<open>undefined\<close> or \<open>null\<close> throws a \<open>TypeError\<close>.\<close>

definition type_error :: error where
  "type_error = OtherError ''TypeError: cannot read properties of undefined''"

definition initialize_resume :: "settlement \<Rightarrow> client \<Rightarrow> (error + result) \<times> client" where
  "initialize_resume v s =
     (case v of
        Rejected e \<Rightarrow> initialize_failed e s
      | Resolved response \<Rightarrow>
          (case response_error ''Initialization failed: '' response of
             Some e \<Rightarrow> initialize_failed e s
           | None \<Rightarrow>
               (case field ''result'' response of
                  None \<Rightarrow> initialize_failed type_error s
                | Some res \<Rightarrow>
                    if res = JNull then initialize_failed type_error s
                    else (Inr (RJson (Some res)),
                          s\<lparr>connectionStatus := Ready,
                            serverCapabilities := field ''capabilities'' res,
                            serverInfo := field ''serverInfo'' res,
                            protocolVersion := field ''protocolVersion'' res,
                            log := log s @ [(LInfo, ''MCP session initialized'')]\<rparr>))))"

text \<open>\<open>listTools\<close>, \<open>listPrompts\<close>, \<open>listResources\<close>: \<open>(response.result as {..}).<name> || []\<close>.\<close>

definition list_resume :: "string \<Rightarrow> string \<Rightarrow> settlement \<Rightarrow> error + result" where
  "list_resume prefix name v =
     (case v of
        Rejected e \<Rightarrow> Inl e
      | Resolved response \<Rightarrow>
          (case response_error prefix response of
             Some e \<Rightarrow> Inl e
           | None \<Rightarrow>
               (case field ''result'' response of
                  None \<Rightarrow> Inl type_error
                | Some res \<Rightarrow>
                    if res = JNull then Inl type_error
                    else Inr (RJson (Some (or_else (field name res) (JArr [])))))))"

text \<open>\<open>callTool\<close>, \<open>getPrompt\<close>, \<open>getResource\<close>: \<open>return response.result\<close>.\<close>

definition get_resume :: "string \<Rightarrow> settlement \<Rightarrow> error + result" where
  "get_resume prefix v =
     (case v of
        Rejected e \<Rightarrow> Inl e
      | Resolved response \<Rightarrow>
          (case response_error prefix response of
             Some e \<Rightarrow> Inl e
           | None \<Rightarrow> Inr (RJson (field ''result'' response))))"

text \<open>
  \<open>getHealthStatus\<close> after the ping: the response is not looked at; the phase is read when
  this code runs.
\<close>

definition health_resume :: "metrics \<Rightarrow> settlement \<Rightarrow> client \<Rightarrow> error + result" where
  "health_resume m v s =
     (case v of
        Resolved response \<Rightarrow>
          Inr (RHealth \<lparr>healthy = (connectionStatus s = Ready), h_error = None, h_metrics = m\<rparr>)
      | Rejected e \<Rightarrow>
          Inr (RHealth \<lparr>healthy = False, h_error = Some (message_of e), h_metrics = m\<rparr>))"

fun resume :: "continuation \<Rightarrow> settlement \<Rightarrow> client \<Rightarrow> (error + result) \<times> client" where
  "resume KInitialize v s = initialize_resume v s"
| "resume KListTools v s = (list_resume ''Failed to list tools: '' ''tools'' v, s)"
| "resume KListPrompts v s = (list_resume ''Failed to list prompts: '' ''prompts'' v, s)"
| "resume KListResources v s = (list_resume ''Failed to list resources: '' ''resources'' v, s)"
| "resume KCallTool v s = (get_resume ''Tool call failed: '' v, s)"
| "resume KGetPrompt v s = (get_resume ''Failed to get prompt: '' v, s)"
| "resume KGetResource v s = (get_resume ''Failed to get resource: '' v, s)"
| "resume (KHealth m) v s = (health_resume m v s, s)"

section \<open>Promises and the code that awaits them\<close>

text \<open>
  \<open>resolve(v)\<close> and \<open>reject(e)\<close> of the promise with handle \<open>h\<close>.  A promise is settled once:
  on a settled promise both do nothing.  Settling queues the code that awaits the
  promise; it does not run it.
\<close>

definition settle :: "nat \<Rightarrow> settlement \<Rightarrow> client \<Rightarrow> client" where
  "settle h v s =
     (case promises s h of
        Some _ \<Rightarrow> s
      | None \<Rightarrow> s\<lparr>promises := (promises s)(h \<mapsto> v), microtasks := microtasks s @ [h]\<rparr>)"

text \<open>
  The code that awaits the promise \<open>h\<close> resumes: the rest of the public operation runs
  with the settlement, in the state the client is in by then, and the caller of the
  operation gets its outcome.  Only queued code resumes, and it resumes once.
\<close>

definition resumes :: "nat \<Rightarrow> client \<Rightarrow> client" where
  "resumes h s =
     (if h \<notin> set (microtasks s) then s
      else
        let s0 = s\<lparr>microtasks := removeAll h (microtasks s)\<rparr>
        in case promises s h of
             None \<Rightarrow> s0
           | Some v \<Rightarrow>
               (case awaiting s h of
                  None \<Rightarrow> s0
                | Some k \<Rightarrow>
                    (case resume k v s0 of
                       (r, s') \<Rightarrow> s'\<lparr>outcomes := (outcomes s')(h \<mapsto> r)\<rparr>)))"

text \<open>All the queued code runs, in the order of the queue.\<close>

definition drain :: "client \<Rightarrow> client" where
  "drain s = fold resumes (microtasks s) s"

section \<open>Timers and writes\<close>

definition timeout_message :: "int \<Rightarrow> string" where
  "timeout_message tmo = ''Request timeout after '' @ show_int tmo @ ''ms''"

text \<open>
  The callback handed to \<open>setTimeout\<close> in \<open>sendRequest\<close>: it deletes the entry of its
  request and rejects its promise.
\<close>

definition timeout_callback :: "nat \<Rightarrow> client \<Rightarrow> client" where
  "timeout_callback h s =
     (case closures s h of
        None \<Rightarrow> s
      | Some c \<Rightarrow>
          settle h (Rejected (MCPTimeoutError (timeout_message (c_timeout c))))
            (s\<lparr>pendingRequests := AList.delete (c_id c) (pendingRequests s)\<rparr>))"

text \<open>
  The platform runs the callback of an armed timer, once, and not before the timer is
  due.
\<close>

definition timer_fires :: "nat \<Rightarrow> client \<Rightarrow> client" where
  "timer_fires h s =
     (case timers s h of
        None \<Rightarrow> s
      | Some due \<Rightarrow>
          if now s < due then s
          else timeout_callback h (s\<lparr>timers := (timers s)(h := None)\<rparr>))"

text \<open>The \<open>catch\<close> callback of \<open>stdin.write\<close> in \<open>sendRequest\<close>.\<close>

definition write_callback :: "nat \<Rightarrow> client \<Rightarrow> client" where
  "write_callback h s =
     (case closures s h of
        None \<Rightarrow> s
      | Some c \<Rightarrow>
          settle h (Rejected (MCPConnectionError ''Failed to send request''))
            (s\<lparr>pendingRequests := AList.delete (c_id c) (pendingRequests s)\<rparr>))"

text \<open>A write in flight fails, which runs the callback, or completes.\<close>

definition write_fails :: "nat \<Rightarrow> client \<Rightarrow> client" where
  "write_fails h s =
     (if writes s h then write_callback h (s\<lparr>writes := (writes s)(h := False)\<rparr>) else s)"

definition write_done :: "nat \<Rightarrow> client \<Rightarrow> client" where
  "write_done h s = s\<lparr>writes := (writes s)(h := False)\<rparr>"

definition tick :: "nat \<Rightarrow> client \<Rightarrow> client" where
  "tick d s = s\<lparr>now := now s + int d\<rparr>"

section \<open>The message router\<close>

definition handleNotification :: "json \<Rightarrow> client \<Rightarrow> client" where
  "handleNotification notification s =
     (let s1 = logged LDebug ''Received notification'' s;
          m = field ''method'' notification
      in if m = Some (JStr ''notifications/tools/list_changed'')
         then logged LInfo ''Server tools list changed'' s1
         else if m = Some (JStr ''notifications/prompts/list_changed'')
         then logged LInfo ''Server prompts list changed'' s1
         else if m = Some (JStr ''notifications/resources/list_changed'')
         then logged LInfo ''Server resources list changed'' s1
         else logged LDebug ''Unknown notification method'' s1)"

text \<open>The entry of the pending table that \<open>message.id\<close> finds, with its key.\<close>

definition find_pending :: "json \<Rightarrow> client \<Rightarrow> (req_id \<times> nat) option" where
  "find_pending message s =
     (case field ''id'' message of
        None \<Rightarrow> None
      | Some i \<Rightarrow>
          (case key_of i of
             None \<Rightarrow> None
           | Some k \<Rightarrow>
               (case map_of (pendingRequests s) k of
                  None \<Rightarrow> None
                | Some h \<Rightarrow> Some (k, h))))"

text \<open>
  \<open>processMessage\<close>; its argument is what \<open>JSON.parse(line)\<close> gave, \<open>None\<close> when it threw.
  It returns in every branch: nothing is thrown to the read loop.  For a response to a
  pending request it deletes the entry, clears the timer and resolves the promise.
\<close>

definition processMessage :: "json option \<Rightarrow> client \<Rightarrow> client" where
  "processMessage parsed s =
     (case parsed of
        None \<Rightarrow> logged LError ''Failed to parse message'' s
      | Some message \<Rightarrow>
          if field ''jsonrpc'' message \<noteq> Some (JStr ''2.0'')
          then logged LError ''Failed to parse message'' s
          else
            (case find_pending message s of
               Some (k, h) \<Rightarrow>
                 settle h (Resolved message)
                   (s\<lparr>pendingRequests := AList.delete k (pendingRequests s),
                     timers := (timers s)(h := None)\<rparr>)
             | None \<Rightarrow>
                 if truthy (field ''method'' message) \<and> field ''id'' message = None
                 then handleNotification message s
                 else logged LWarn ''Received unexpected message'' s))"

section \<open>The public operations\<close>

text \<open>
  \<open>connect\<close> has no \<open>await\<close>.  The argument tells whether the \<open>try\<close> block ran through
  or threw while it created and spawned the server process; taking the streams of a
  process that was spawned and starting the read loops do not throw.
\<close>

definition connect :: "bool \<Rightarrow> client \<Rightarrow> call \<times> client" where
  "connect spawned s =
     (if connectionStatus s \<noteq> Disconnected
      then (Failed (MCPConnectionError ''Client already connected or connecting''), s)
      else
        let s1 = logged LInfo ''Connecting to MCP server'' (s\<lparr>connectionStatus := Connecting\<rparr>)
        in if spawned
           then (Returned RVoid,
                 logged LInfo ''MCP server process started''
                   (s1\<lparr>process := True, stdin := True, stdout := True, stderr := True,
                      connectionStatus := Connected\<rparr>))
           else (Failed (MCPConnectionError ''Failed to start MCP server process''),
                 logged LError ''Failed to start MCP server process''
                   (s1\<lparr>connectionStatus := Disconnected\<rparr>)))"

text \<open>
  What the platform does during the teardown of \<open>disconnect\<close>: closing a stream may throw,
  which the outer \<open>catch\<close> logs and rethrows; an error while the process is terminated is
  logged only.  How the process is terminated (the signal, the wait, the forced kill)
  leaves no trace in the fields but \<open>process = null\<close>.
\<close>

datatype teardown =
    StdinCloseThrows | StdoutCancelThrows | StderrCancelThrows | ProcessThrows | Smooth

definition stream_error :: error where
  "stream_error = OtherError ''stream error''"

definition disconnect_cleanup :: "teardown \<Rightarrow> client \<Rightarrow> call \<times> client" where
  "disconnect_cleanup env s =
     (if stdin s \<and> env = StdinCloseThrows
      then (Failed stream_error, logged LError ''Error during disconnect'' s)
      else
        let s1 = s\<lparr>stdin := False\<rparr>
        in if stdout s1 \<and> env = StdoutCancelThrows
           then (Failed stream_error, logged LError ''Error during disconnect'' s1)
           else
             let s2 = s1\<lparr>stdout := False\<rparr>
             in if stderr s2 \<and> env = StderrCancelThrows
                then (Failed stream_error, logged LError ''Error during disconnect'' s2)
                else
                  let s3 = s2\<lparr>stderr := False\<rparr>;
                      s4 = (if process s3
                            then (if env = ProcessThrows
                                  then logged LDebug ''Process termination error'' s3
                                  else s3)\<lparr>process := False\<rparr>
                            else s3)
                  in (Returned RVoid, logged LInfo ''Disconnected from MCP server'' s4))"

text \<open>
  The loop of \<open>disconnect\<close> rejects the promise of every entry, in the order of the table.
\<close>

definition reject_all :: "client \<Rightarrow> client" where
  "reject_all s =
     fold (\<lambda>(i, h). settle h (Rejected (MCPConnectionError ''Connection closed'')))
       (pendingRequests s) s"

text \<open>
  The synchronous part of \<open>disconnect\<close>: it sets the phase, rejects the pending
  promises and clears the table.  The timers are not cleared.
\<close>

definition disconnect_begin :: "client \<Rightarrow> client" where
  "disconnect_begin s =
     (reject_all ((logged LInfo ''Disconnecting from MCP server'' s)
                    \<lparr>connectionStatus := Disconnected\<rparr>))
       \<lparr>pendingRequests := []\<rparr>"

text \<open>
  \<open>disconnect\<close>, as its caller awaits it.  After the synchronous part the teardown
  awaits the platform, for each stream and for the process that is there; at the first of
  these awaits the queued code runs: the callers that the loop has just rejected, and
  whatever was queued before.  With no stream and no process there is nothing to await,
  and the queued code runs when \<open>disconnect\<close> has returned, before its caller goes on.
  The teardown itself is taken as one step.
\<close>

definition disconnect :: "teardown \<Rightarrow> client \<Rightarrow> call \<times> client" where
  "disconnect env s =
     (if connectionStatus s = Disconnected then (Returned RVoid, s)
      else
        let s1 = disconnect_begin s
        in if stdin s1 \<or> stdout s1 \<or> stderr s1 \<or> process s1
           then disconnect_cleanup env (drain s1)
           else (case disconnect_cleanup env s1 of (r, s2) \<Rightarrow> (r, drain s2)))"

text \<open>
  \<open>await this.sendRequest({jsonrpc: '2.0', id: this.getNextRequestId(), method, params})\<close>:
  the id is taken before \<open>sendRequest\<close> runs its guard.
\<close>

definition request :: "continuation \<Rightarrow> string \<Rightarrow> json option \<Rightarrow> int option \<Rightarrow> client
    \<Rightarrow> nat \<times> client" where
  "request k method params timeoutMs s =
     (case getNextRequestId s of
        (i, s1) \<Rightarrow>
          sendRequest \<lparr>rq_id = NumId i, rq_method = method, rq_params = params\<rparr> timeoutMs k s1)"

definition supportedProtocolVersion :: json where
  "supportedProtocolVersion =
     JObj [(''major'', JNum 2024), (''minor'', JNum 11), (''patch'', JNum 5)]"

definition defaultCapabilities :: json where
  "defaultCapabilities =
     JObj [(''logging'', JObj [(''level'', JStr ''info'')]),
           (''tools'', JObj [(''listChanged'', JBool True)]),
           (''resources'', JObj [(''listChanged'', JBool False), (''subscribe'', JBool False)]),
           (''prompts'', JObj [(''listChanged'', JBool False)])]"

definition defaultClientInfo :: json where
  "defaultClientInfo =
     JObj [(''name'', JStr ''Claude-Flow MCP Client''), (''version'', JStr ''1.0.0'')]"

text \<open>
  \<open>initialize\<close> up to its \<open>await\<close>; the \<open>try\<close> block goes on, and the \<open>catch\<close> block runs,
  when the promise of \<open>sendRequest\<close> has been settled and this code resumes.
\<close>

definition initialize :: "json option \<Rightarrow> client \<Rightarrow> call \<times> client" where
  "initialize params s =
     (if connectionStatus s \<noteq> Connected
      then (Failed (MCPConnectionError ''Client not connected''), s)
      else
        let s1 = logged LInfo ''Initializing MCP session'' (s\<lparr>connectionStatus := Initializing\<rparr>);
            initParams = or_else params
              (JObj [(''protocolVersion'', supportedProtocolVersion),
                     (''capabilities'', or_else (capabilities (config s)) defaultCapabilities),
                     (''clientInfo'', or_else (clientInfo (config s)) defaultClientInfo)])
        in case request KInitialize ''initialize'' (Some initParams) None s1 of
             (h, s2) \<Rightarrow> (Suspended h, s2))"

text \<open>The operations that start with \<open>this.ensureReady()\<close>.\<close>

definition ready_gated :: "continuation \<Rightarrow> string \<Rightarrow> json option \<Rightarrow> client \<Rightarrow> call \<times> client" where
  "ready_gated k method params s =
     (case ensureReady s of
        Some e \<Rightarrow> (Failed e, s)
      | None \<Rightarrow>
          (case request k method params None s of
             (h, s1) \<Rightarrow> (Suspended h, s1)))"

definition listTools :: "client \<Rightarrow> call \<times> client" where
  "listTools s = ready_gated KListTools ''tools/list'' None s"

definition listPrompts :: "client \<Rightarrow> call \<times> client" where
  "listPrompts s = ready_gated KListPrompts ''prompts/list'' None s"

definition listResources :: "client \<Rightarrow> call \<times> client" where
  "listResources s = ready_gated KListResources ''resources/list'' None s"

definition callTool :: "string \<Rightarrow> json option \<Rightarrow> client \<Rightarrow> call \<times> client" where
  "callTool name args s =
     (case ensureReady s of
        Some e \<Rightarrow> (Failed e, s)
      | None \<Rightarrow>
          ready_gated KCallTool ''tools/call''
            (Some (JObj [(''name'', JStr name), (''arguments'', or_else args (JObj []))]))
            (logged LDebug ''Calling tool'' s))"

definition getPrompt :: "string \<Rightarrow> json option \<Rightarrow> client \<Rightarrow> call \<times> client" where
  "getPrompt name args s =
     ready_gated KGetPrompt ''prompts/get''
       (Some (JObj [(''name'', JStr name), (''arguments'', or_else args (JObj []))])) s"

definition getResource :: "string \<Rightarrow> client \<Rightarrow> call \<times> client" where
  "getResource uri s =
     ready_gated KGetResource ''resources/read'' (Some (JObj [(''uri'', JStr uri)])) s"

text \<open>The argument \<open>wrote\<close> tells whether \<open>stdin.write\<close> went through.\<close>

definition sendNotification :: "json \<Rightarrow> bool \<Rightarrow> client \<Rightarrow> call \<times> client" where
  "sendNotification notification wrote s =
     (if connectionStatus s = Disconnected \<or> \<not> stdin s
      then (Failed (MCPConnectionError ''Client not connected''), s)
      else if wrote
      then (Returned RVoid,
            logged LDebug ''Notification sent''
              (s\<lparr>written := written s @ [NotificationFrame notification]\<rparr>))
      else (Failed (MCPConnectionError ''Failed to send notification''),
            logged LError ''Failed to send notification''
              (s\<lparr>written := written s @ [NotificationFrame notification]\<rparr>)))"

definition getConnectionStatus :: "client \<Rightarrow> phase" where
  "getConnectionStatus s = connectionStatus s"

definition getServerCapabilities :: "client \<Rightarrow> json option" where
  "getServerCapabilities s = serverCapabilities s"

definition current_metrics :: "client \<Rightarrow> metrics" where
  "current_metrics s =
     \<lparr>m_pendingRequests = length (pendingRequests s),
      m_bufferSize = length (buffer s),
      m_connectionStatus = (if connectionStatus s = Ready then 1 else 0)\<rparr>"

text \<open>
  \<open>getHealthStatus\<close> up to its \<open>await\<close>: in phase ready it sends the ping with a bound of
  1000 ms and waits; the report is made when this code resumes.
\<close>

definition getHealthStatus :: "client \<Rightarrow> call \<times> client" where
  "getHealthStatus s =
     (let m = current_metrics s
      in if connectionStatus s = Disconnected
         then (Returned (RHealth \<lparr>healthy = False, h_error = Some ''Client disconnected'',
                                  h_metrics = m\<rparr>), s)
         else if connectionStatus s = Ready
         then (case request (KHealth m) ''ping'' None (Some 1000) s of
                 (h, s1) \<Rightarrow> (Suspended h, s1))
         else (Returned (RHealth \<lparr>healthy = False, h_error = None, h_metrics = m\<rparr>), s))"

section \<open>Runs of the client\<close>

text \<open>
  Everything that can happen to a client: a call of a public operation, a line of the
  server handed to \<open>processMessage\<close>, a timer that fires, a write that fails or completes,
  queued code that resumes, and time that passes.  Between the step that settles a
  promise and the step in which the code awaiting it resumes, any other step may take
  place.
\<close>

datatype event =
    Connect bool
  | Disconnect teardown
  | Initialize "json option"
  | ListTools
  | ListPrompts
  | ListResources
  | CallTool string "json option"
  | GetPrompt string "json option"
  | GetResource string
  | SendNotification json bool
  | GetHealthStatus
  | Line "json option"
  | TimerFires nat
  | WriteFails nat
  | WriteDone nat
  | Resumes nat
  | Tick nat

fun step :: "event \<Rightarrow> client \<Rightarrow> client" where
  "step (Connect spawned) s = snd (connect spawned s)"
| "step (Disconnect env) s = snd (disconnect env s)"
| "step (Initialize params) s = snd (initialize params s)"
| "step ListTools s = snd (listTools s)"
| "step ListPrompts s = snd (listPrompts s)"
| "step ListResources s = snd (listResources s)"
| "step (CallTool name args) s = snd (callTool name args s)"
| "step (GetPrompt name args) s = snd (getPrompt name args s)"
| "step (GetResource uri) s = snd (getResource uri s)"
| "step (SendNotification n wrote) s = snd (sendNotification n wrote s)"
| "step GetHealthStatus s = snd (getHealthStatus s)"
| "step (Line parsed) s = processMessage parsed s"
| "step (TimerFires h) s = timer_fires h s"
| "step (WriteFails h) s = write_fails h s"
| "step (WriteDone h) s = write_done h s"
| "step (Resumes h) s = resumes h s"
| "step (Tick d) s = tick d s"

definition run :: "event list \<Rightarrow> client \<Rightarrow> client" where
  "run evs s = fold step evs s"

section \<open>Auxiliary notions\<close>




text \<open>
  The invariant of the correlator.  A disconnected client has an empty table and no code
  waiting to resume; the keys of the table are distinct; every entry of the table belongs
  to a promise that is not settled, whose timer is armed and whose callbacks close over
  the key of the entry; handles not yet handed out are unused; the ids that callbacks
  close over were handed out by \<open>getNextRequestId\<close> and differ from handle to handle; a
  promise that was handed out and is not settled has its entry in the table; an armed
  timer has its callback; and a caller that has its outcome waits no more.
\<close>

definition client_inv :: "client \<Rightarrow> bool" where
  "client_inv s \<longleftrightarrow>
     (connectionStatus s = Disconnected \<longrightarrow> pendingRequests s = [] \<and> microtasks s = []) \<and>
     distinct (map fst (pendingRequests s)) \<and>
     (\<forall>i h. map_of (pendingRequests s) i = Some h \<longrightarrow>
        promises s h = None \<and> timers s h \<noteq> None \<and> (\<exists>c. closures s h = Some c \<and> c_id c = i)) \<and>
     (\<forall>h. nextHandle s \<le> h \<longrightarrow>
        closures s h = None \<and> promises s h = None \<and> h \<notin> set (microtasks s) \<and>
        outcomes s h = None \<and> timers s h = None \<and> \<not> writes s h) \<and>
     (\<forall>h c. closures s h = Some c \<longrightarrow> (\<exists>n. c_id c = NumId n \<and> n < nextRequestId s)) \<and>
     (\<forall>h h' c c'. closures s h = Some c \<longrightarrow> closures s h' = Some c' \<longrightarrow> c_id c = c_id c' \<longrightarrow> h = h') \<and>
     (\<forall>h. h < nextHandle s \<and> promises s h = None \<longrightarrow>
        (\<exists>c. closures s h = Some c \<and> map_of (pendingRequests s) (c_id c) = Some h)) \<and>
     (\<forall>h. timers s h \<noteq> None \<longrightarrow> closures s h \<noteq> None) \<and>
     (\<forall>h. outcomes s h \<noteq> None \<longrightarrow> promises s h \<noteq> None \<and> h \<notin> set (microtasks s))"

text \<open>
  The effect of queued code that resumes: it may change the phase (never to
  disconnected), what is known about the server, and the log, and it gives outcomes to
  callers that were queued; it leaves the queue shorter and everything else as it is.
\<close>

definition woken :: "client \<Rightarrow> client \<Rightarrow> bool" where
  "woken s s' \<longleftrightarrow>
     config s' = config s \<and> process s' = process s \<and> stdin s' = stdin s \<and>
     stdout s' = stdout s \<and> stderr s' = stderr s \<and>
     pendingRequests s' = pendingRequests s \<and> nextRequestId s' = nextRequestId s \<and>
     buffer s' = buffer s \<and> nextHandle s' = nextHandle s \<and> closures s' = closures s \<and>
     promises s' = promises s \<and> awaiting s' = awaiting s \<and> timers s' = timers s \<and>
     writes s' = writes s \<and> written s' = written s \<and> now s' = now s \<and>
     set (microtasks s') \<subseteq> set (microtasks s) \<and>
     (\<forall>h. outcomes s' h \<noteq> outcomes s h \<longrightarrow>
        h \<in> set (microtasks s) \<and> h \<notin> set (microtasks s') \<and> promises s h \<noteq> None) \<and>
     (connectionStatus s' = Disconnected \<longrightarrow> connectionStatus s = Disconnected)"

text \<open>The stores that the teardown of \<open>disconnect\<close> does not touch.\<close>

definition same_stores :: "client \<Rightarrow> client \<Rightarrow> bool" where
  "same_stores s s' \<longleftrightarrow>
     config s' = config s \<and> connectionStatus s' = connectionStatus s \<and>
     pendingRequests s' = pendingRequests s \<and> nextRequestId s' = nextRequestId s \<and>
     nextHandle s' = nextHandle s \<and> closures s' = closures s \<and> promises s' = promises s \<and>
     awaiting s' = awaiting s \<and> microtasks s' = microtasks s \<and> outcomes s' = outcomes s \<and>
     timers s' = timers s \<and> writes s' = writes s \<and> written s' = written s \<and> now s' = now s"

text \<open>Every settlement of \<open>s\<close>, and every outcome a caller has got, is still there in \<open>s'\<close>.\<close>

definition stable :: "client \<Rightarrow> client \<Rightarrow> bool" where
  "stable s s' \<longleftrightarrow>
     (\<forall>h v. promises s h = Some v \<longrightarrow> promises s' h = Some v) \<and>
     (\<forall>h r. outcomes s h = Some r \<longrightarrow> outcomes s' h = Some r)"

text \<open>
  What a step may do to handles and clock: both only grow, and what belongs to a handle
  that was handed out (the code that awaits it, the variables its callbacks close over)
  stays the same.
\<close>

definition advances :: "client \<Rightarrow> client \<Rightarrow> bool" where
  "advances s s' \<longleftrightarrow>
     nextHandle s \<le> nextHandle s' \<and> now s \<le> now s' \<and>
     (\<forall>h. h < nextHandle s \<longrightarrow> awaiting s' h = awaiting s h \<and> closures s' h = closures s h)"

subsection \<open>Scenarios\<close>

definition default_config :: MCPClientConfig where
  "default_config = \<lparr>timeout = None, capabilities = None, clientInfo = None\<rparr>"

definition success_response :: "int \<Rightarrow> json" where
  "success_response i =
     JObj [(''jsonrpc'', JStr ''2.0''), (''id'', JNum i),
           (''result'', JObj [(''protocolVersion'', supportedProtocolVersion),
                              (''capabilities'', defaultCapabilities),
                              (''serverInfo'', JObj [(''name'', JStr ''server'')])])]"

definition error_response :: "int \<Rightarrow> json" where
  "error_response i =
     JObj [(''jsonrpc'', JStr ''2.0''), (''id'', JNum i),
           (''error'', JObj [(''code'', JNum (- 32601)),
                             (''message'', JStr ''Method not found'')])]"

text \<open>
  A client after \<open>connect\<close> and a handshake that the server answered, with \<open>initialize\<close>
  resumed.
\<close>

definition ready_client :: client where
  "ready_client =
     run [Connect True, Initialize None, Line (Some (success_response 1)), Resumes 0]
       (init default_config)"

section \<open>Promises are settled once, queued code resumes once\<close>

lemma settle_settled: "promises s h = Some w \<Longrightarrow> settle h v s = s"
  by (simp add: settle_def)

lemma settle_unsettled:
  "promises s h = None \<Longrightarrow>
   settle h v s = s\<lparr>promises := (promises s)(h \<mapsto> v), microtasks := microtasks s @ [h]\<rparr>"
  by (simp add: settle_def)

lemma settle_promises:
  "promises (settle h v s) = (if promises s h = None then (promises s)(h \<mapsto> v) else promises s)"
  by (cases "promises s h") (simp_all add: settle_def)

lemma settle_microtasks:
  "microtasks (settle h v s) = (if promises s h = None then microtasks s @ [h] else microtasks s)"
  by (cases "promises s h") (simp_all add: settle_def)

lemma settle_fields:
  "pendingRequests (settle h v s) = pendingRequests s"
  "closures (settle h v s) = closures s"
  "awaiting (settle h v s) = awaiting s"
  "outcomes (settle h v s) = outcomes s"
  "timers (settle h v s) = timers s"
  "writes (settle h v s) = writes s"
  "nextHandle (settle h v s) = nextHandle s"
  "nextRequestId (settle h v s) = nextRequestId s"
  "connectionStatus (settle h v s) = connectionStatus s"
  "now (settle h v s) = now s"
  "written (settle h v s) = written s"
  "log (settle h v s) = log s"
  "stdin (settle h v s) = stdin s"
  "stdout (settle h v s) = stdout s"
  "stderr (settle h v s) = stderr s"
  "process (settle h v s) = process s"
  "config (settle h v s) = config s"
  "buffer (settle h v s) = buffer s"
  by (cases "promises s h"; simp add: settle_def)+

lemma initialize_resume_cases:
  "(\<exists>e. initialize_resume v s = initialize_failed e s) \<or>
   (\<exists>res. initialize_resume v s =
      (Inr (RJson (Some res)),
       s\<lparr>connectionStatus := Ready,
         serverCapabilities := field ''capabilities'' res,
         serverInfo := field ''serverInfo'' res,
         protocolVersion := field ''protocolVersion'' res,
         log := log s @ [(LInfo, ''MCP session initialized'')]\<rparr>))"
  by (auto simp add: initialize_resume_def split: settlement.split option.split)

lemma initialize_resume_fields:
  "config (snd (initialize_resume v s)) = config s"
  "process (snd (initialize_resume v s)) = process s"
  "stdin (snd (initialize_resume v s)) = stdin s"
  "stdout (snd (initialize_resume v s)) = stdout s"
  "stderr (snd (initialize_resume v s)) = stderr s"
  "pendingRequests (snd (initialize_resume v s)) = pendingRequests s"
  "nextRequestId (snd (initialize_resume v s)) = nextRequestId s"
  "buffer (snd (initialize_resume v s)) = buffer s"
  "nextHandle (snd (initialize_resume v s)) = nextHandle s"
  "closures (snd (initialize_resume v s)) = closures s"
  "promises (snd (initialize_resume v s)) = promises s"
  "awaiting (snd (initialize_resume v s)) = awaiting s"
  "microtasks (snd (initialize_resume v s)) = microtasks s"
  "outcomes (snd (initialize_resume v s)) = outcomes s"
  "timers (snd (initialize_resume v s)) = timers s"
  "writes (snd (initialize_resume v s)) = writes s"
  "written (snd (initialize_resume v s)) = written s"
  "now (snd (initialize_resume v s)) = now s"
  "connectionStatus (snd (initialize_resume v s)) \<noteq> Disconnected"
  using initialize_resume_cases [of v s] by (auto simp add: initialize_failed_def)

lemma resume_fields:
  "config (snd (resume k v s)) = config s"
  "process (snd (resume k v s)) = process s"
  "stdin (snd (resume k v s)) = stdin s"
  "stdout (snd (resume k v s)) = stdout s"
  "stderr (snd (resume k v s)) = stderr s"
  "pendingRequests (snd (resume k v s)) = pendingRequests s"
  "nextRequestId (snd (resume k v s)) = nextRequestId s"
  "buffer (snd (resume k v s)) = buffer s"
  "nextHandle (snd (resume k v s)) = nextHandle s"
  "closures (snd (resume k v s)) = closures s"
  "promises (snd (resume k v s)) = promises s"
  "awaiting (snd (resume k v s)) = awaiting s"
  "microtasks (snd (resume k v s)) = microtasks s"
  "outcomes (snd (resume k v s)) = outcomes s"
  "timers (snd (resume k v s)) = timers s"
  "writes (snd (resume k v s)) = writes s"
  "written (snd (resume k v s)) = written s"
  "now (snd (resume k v s)) = now s"
  by (cases k; simp add: initialize_resume_fields)+

lemma resume_status:
  "connectionStatus (snd (resume k v s)) = Disconnected \<Longrightarrow> connectionStatus s = Disconnected"
  by (cases k) (simp_all add: initialize_resume_fields)

text \<open>The three cases of \<open>resumes\<close>.\<close>

lemma resumes_not_queued: "h \<notin> set (microtasks s) \<Longrightarrow> resumes h s = s"
  by (simp add: resumes_def)

lemma resumes_queued:
  assumes "h \<in> set (microtasks s)" and "promises s h = Some v" and "awaiting s h = Some k"
  shows "resumes h s =
           (snd (resume k v (s\<lparr>microtasks := removeAll h (microtasks s)\<rparr>)))
             \<lparr>outcomes := (outcomes s)(h \<mapsto> fst (resume k v (s\<lparr>microtasks := removeAll h (microtasks s)\<rparr>)))\<rparr>"
  using assms by (simp add: resumes_def Let_def split_beta resume_fields)

lemma resumes_idle:
  assumes "h \<in> set (microtasks s)" and "promises s h = None \<or> awaiting s h = None"
  shows "resumes h s = s\<lparr>microtasks := removeAll h (microtasks s)\<rparr>"
  using assms by (auto simp add: resumes_def Let_def split: option.split)

lemma resumes_outcome:
  assumes "h \<in> set (microtasks s)" and "promises s h = Some v" and "awaiting s h = Some k"
  shows "outcomes (resumes h s) h = Some (fst (resume k v (s\<lparr>microtasks := removeAll h (microtasks s)\<rparr>)))"
  by (simp add: resumes_queued [OF assms])

lemma resumes_microtasks: "microtasks (resumes h s) = removeAll h (microtasks s)"
proof (cases "h \<in> set (microtasks s)")
  case False
  then show ?thesis by (simp add: resumes_not_queued)
next
  case True
  show ?thesis
  proof (cases "promises s h")
    case None
    then show ?thesis using True by (simp add: resumes_idle)
  next
    case (Some v)
    show ?thesis
    proof (cases "awaiting s h")
      case None
      then show ?thesis using True by (simp add: resumes_idle)
    next
      case (Some k)
      with True \<open>promises s h = Some v\<close> show ?thesis
        by (simp add: resumes_queued resume_fields)
    qed
  qed
qed

lemma woken_refl: "woken s s"
  by (simp add: woken_def)

lemma woken_trans:
  assumes "woken s s'" and "woken s' s''"
  shows "woken s s''"
proof -
  have a: "set (microtasks s'') \<subseteq> set (microtasks s)"
    using assms unfolding woken_def by blast
  have b: "h \<in> set (microtasks s) \<and> h \<notin> set (microtasks s'') \<and> promises s h \<noteq> None"
    if "outcomes s'' h \<noteq> outcomes s h" for h
  proof (cases "outcomes s' h = outcomes s h")
    case True
    with that have "outcomes s'' h \<noteq> outcomes s' h" by simp
    with assms(2) have "h \<in> set (microtasks s') \<and> h \<notin> set (microtasks s'') \<and> promises s' h \<noteq> None"
      unfolding woken_def by blast
    with assms(1) show ?thesis unfolding woken_def by auto
  next
    case False
    with assms(1) have "h \<in> set (microtasks s) \<and> h \<notin> set (microtasks s') \<and> promises s h \<noteq> None"
      unfolding woken_def by blast
    with assms(2) show ?thesis unfolding woken_def by auto
  qed
  have c: "connectionStatus s'' = Disconnected \<longrightarrow> connectionStatus s = Disconnected"
    using assms unfolding woken_def by blast
  have d: "config s'' = config s" "process s'' = process s" "stdin s'' = stdin s"
    "stdout s'' = stdout s" "stderr s'' = stderr s" "pendingRequests s'' = pendingRequests s"
    "nextRequestId s'' = nextRequestId s" "buffer s'' = buffer s" "nextHandle s'' = nextHandle s"
    "closures s'' = closures s" "promises s'' = promises s" "awaiting s'' = awaiting s"
    "timers s'' = timers s" "writes s'' = writes s" "written s'' = written s" "now s'' = now s"
    using assms unfolding woken_def by simp_all
  from a b c d show ?thesis unfolding woken_def by blast
qed

lemma resumes_woken: "woken s (resumes h s)"
proof (cases "h \<in> set (microtasks s)")
  case False
  then show ?thesis by (simp add: resumes_not_queued woken_refl)
next
  case True
  show ?thesis
  proof (cases "promises s h = None \<or> awaiting s h = None")
    case True
    with \<open>h \<in> set (microtasks s)\<close> show ?thesis
      by (simp add: resumes_idle woken_def)
  next
    case False
    then obtain v k where vk: "promises s h = Some v" "awaiting s h = Some k" by auto
    let ?s0 = "s\<lparr>microtasks := removeAll h (microtasks s)\<rparr>"
    have st: "connectionStatus (snd (resume k v ?s0)) = Disconnected \<longrightarrow> connectionStatus s = Disconnected"
      using resume_status [of k v ?s0] by simp
    show ?thesis
      unfolding resumes_queued [OF True vk] woken_def using st vk True
      by (simp add: resume_fields)
  qed
qed

lemma fold_resumes_woken: "woken s (fold resumes xs s)"
proof (induction xs arbitrary: s)
  case Nil
  show ?case by (simp add: woken_refl)
next
  case (Cons x xs)
  from woken_trans [OF resumes_woken Cons.IH] show ?case by simp
qed

lemma drain_woken: "woken s (drain s)"
  unfolding drain_def by (rule fold_resumes_woken)

lemma fold_resumes_microtasks:
  "set (microtasks (fold resumes xs s)) = set (microtasks s) - set xs"
proof (induction xs arbitrary: s)
  case Nil
  show ?case by simp
next
  case (Cons x xs)
  show ?case by (auto simp add: Cons.IH resumes_microtasks)
qed

lemma drain_microtasks: "microtasks (drain s) = []"
proof -
  have "set (microtasks (drain s)) = {}"
    unfolding drain_def by (simp add: fold_resumes_microtasks)
  then show ?thesis by simp
qed

text \<open>Queued code that does not belong to \<open>initialize\<close> leaves the phase as it is.\<close>

lemma resumes_phase:
  assumes "awaiting s h \<noteq> Some KInitialize"
  shows "connectionStatus (resumes h s) = connectionStatus s"
proof (cases "h \<in> set (microtasks s)")
  case False
  then show ?thesis by (simp add: resumes_not_queued)
next
  case True
  show ?thesis
  proof (cases "promises s h = None \<or> awaiting s h = None")
    case True
    with \<open>h \<in> set (microtasks s)\<close> show ?thesis by (simp add: resumes_idle)
  next
    case False
    then obtain v k where vk: "promises s h = Some v" "awaiting s h = Some k" by auto
    with assms have "k \<noteq> KInitialize" by simp
    then have "connectionStatus (snd (resume k v s0)) = connectionStatus s0" for s0
      by (cases k) simp_all
    then show ?thesis
      unfolding resumes_queued [OF True vk] by simp
  qed
qed

section \<open>The invariant\<close>

lemma client_invI:
  assumes "connectionStatus s = Disconnected \<Longrightarrow> pendingRequests s = [] \<and> microtasks s = []"
    and "distinct (map fst (pendingRequests s))"
    and "\<And>i h. map_of (pendingRequests s) i = Some h \<Longrightarrow>
           promises s h = None \<and> timers s h \<noteq> None \<and> (\<exists>c. closures s h = Some c \<and> c_id c = i)"
    and "\<And>h. nextHandle s \<le> h \<Longrightarrow>
           closures s h = None \<and> promises s h = None \<and> h \<notin> set (microtasks s) \<and>
           outcomes s h = None \<and> timers s h = None \<and> \<not> writes s h"
    and "\<And>h c. closures s h = Some c \<Longrightarrow> \<exists>n. c_id c = NumId n \<and> n < nextRequestId s"
    and "\<And>h h' c c'. closures s h = Some c \<Longrightarrow> closures s h' = Some c' \<Longrightarrow> c_id c = c_id c' \<Longrightarrow> h = h'"
    and "\<And>h. h < nextHandle s \<Longrightarrow> promises s h = None \<Longrightarrow>
           \<exists>c. closures s h = Some c \<and> map_of (pendingRequests s) (c_id c) = Some h"
    and "\<And>h. timers s h \<noteq> None \<Longrightarrow> closures s h \<noteq> None"
    and "\<And>h. outcomes s h \<noteq> None \<Longrightarrow> promises s h \<noteq> None \<and> h \<notin> set (microtasks s)"
  shows "client_inv s"
  unfolding client_inv_def
  apply (intro conjI allI impI)
  using assms(1) apply blast
  using assms(1) apply blast
  using assms(2) apply blast
  using assms(3) apply blast
  using assms(3) apply blast
  using assms(3) apply blast
  using assms(4) apply blast
  using assms(4) apply blast
  using assms(4) apply blast
  using assms(4) apply blast
  using assms(4) apply blast
  using assms(4) apply blast
  using assms(5) apply blast
  using assms(6) apply blast
  using assms(7) apply blast
  using assms(8) apply blast
  using assms(9) apply blast
  using assms(9) apply blast
  done

lemma inv_disconnected:
  "client_inv s \<Longrightarrow> connectionStatus s = Disconnected \<Longrightarrow> pendingRequests s = []"
  unfolding client_inv_def by blast

lemma inv_disconnected_queue:
  "client_inv s \<Longrightarrow> connectionStatus s = Disconnected \<Longrightarrow> microtasks s = []"
  unfolding client_inv_def by blast

lemma inv_distinct: "client_inv s \<Longrightarrow> distinct (map fst (pendingRequests s))"
  unfolding client_inv_def by blast

lemma inv_entry:
  "client_inv s \<Longrightarrow> map_of (pendingRequests s) i = Some h \<Longrightarrow>
   promises s h = None \<and> timers s h \<noteq> None \<and> (\<exists>c. closures s h = Some c \<and> c_id c = i)"
  unfolding client_inv_def by blast

lemma inv_fresh:
  "client_inv s \<Longrightarrow> nextHandle s \<le> h \<Longrightarrow>
   closures s h = None \<and> promises s h = None \<and> h \<notin> set (microtasks s) \<and>
   outcomes s h = None \<and> timers s h = None \<and> \<not> writes s h"
  unfolding client_inv_def by blast

lemma inv_closure_id:
  "client_inv s \<Longrightarrow> closures s h = Some c \<Longrightarrow> \<exists>n. c_id c = NumId n \<and> n < nextRequestId s"
  unfolding client_inv_def by blast

lemma inv_closure_inj:
  "client_inv s \<Longrightarrow> closures s h = Some c \<Longrightarrow> closures s h' = Some c' \<Longrightarrow> c_id c = c_id c'
   \<Longrightarrow> h = h'"
  unfolding client_inv_def by blast

lemma inv_waiting:
  "client_inv s \<Longrightarrow> h < nextHandle s \<Longrightarrow> promises s h = None \<Longrightarrow>
   \<exists>c. closures s h = Some c \<and> map_of (pendingRequests s) (c_id c) = Some h"
  unfolding client_inv_def by blast

lemma inv_timer_closure: "client_inv s \<Longrightarrow> timers s h \<noteq> None \<Longrightarrow> closures s h \<noteq> None"
  unfolding client_inv_def by blast

lemma inv_outcome:
  "client_inv s \<Longrightarrow> outcomes s h \<noteq> None \<Longrightarrow> promises s h \<noteq> None \<and> h \<notin> set (microtasks s)"
  unfolding client_inv_def by blast

text \<open>Consequences of the invariant.\<close>

lemma inv_closure_handle: "client_inv s \<Longrightarrow> closures s h = Some c \<Longrightarrow> h < nextHandle s"
  using inv_fresh [of s h] by (cases "h < nextHandle s") auto

lemma inv_entry_handle:
  assumes "client_inv s" and "map_of (pendingRequests s) i = Some h"
  shows "h < nextHandle s"
proof -
  from inv_entry [OF assms] obtain c where "closures s h = Some c" by blast
  from inv_closure_handle [OF assms(1) this] show ?thesis .
qed


lemma inv_pending_iff:
  assumes "client_inv s" and "closures s h = Some c"
  shows "map_of (pendingRequests s) (c_id c) = Some h \<longleftrightarrow> promises s h = None"
proof
  assume "map_of (pendingRequests s) (c_id c) = Some h"
  from inv_entry [OF assms(1) this] show "promises s h = None" by simp
next
  assume "promises s h = None"
  from inv_waiting [OF assms(1) inv_closure_handle [OF assms] this] assms(2)
  show "map_of (pendingRequests s) (c_id c) = Some h" by simp
qed

lemma inv_settled_no_entry:
  assumes "client_inv s" and "closures s h = Some c" and "promises s h \<noteq> None"
  shows "map_of (pendingRequests s) (c_id c) = None"
proof (cases "map_of (pendingRequests s) (c_id c)")
  case None
  then show ?thesis .
next
  case (Some h')
  from inv_entry [OF assms(1) Some] obtain c' where c': "closures s h' = Some c'" "c_id c' = c_id c"
    and un: "promises s h' = None" by blast
  from inv_closure_inj [OF assms(1) c'(1) assms(2) c'(2)] have "h' = h" .
  with un assms(3) show ?thesis by simp
qed

lemma inv_all_settled:
  assumes "client_inv s" and "pendingRequests s = []" and "h < nextHandle s"
  shows "promises s h \<noteq> None"
proof
  assume "promises s h = None"
  from inv_waiting [OF assms(1,3) this] assms(2) show False by simp
qed

lemma init_inv: "client_inv (init cfg)"
  by (rule client_invI) (simp_all add: init_def)

text \<open>The invariant looks at the phase, the table and the stores of the handles only.\<close>

lemma inv_cong:
  assumes "client_inv s"
    and "connectionStatus s' = Disconnected \<longrightarrow> connectionStatus s = Disconnected"
    and "pendingRequests s' = pendingRequests s"
    and "nextRequestId s' = nextRequestId s"
    and "nextHandle s' = nextHandle s"
    and "closures s' = closures s"
    and "promises s' = promises s"
    and "microtasks s' = microtasks s"
    and "outcomes s' = outcomes s"
    and "timers s' = timers s"
    and "\<And>h. writes s' h \<Longrightarrow> writes s h"
  shows "client_inv s'"
proof (rule client_invI)
  assume "connectionStatus s' = Disconnected"
  with assms(2) have "connectionStatus s = Disconnected" by simp
  from inv_disconnected [OF assms(1) this] inv_disconnected_queue [OF assms(1) this]
  show "pendingRequests s' = [] \<and> microtasks s' = []" by (simp add: assms)
next
  show "distinct (map fst (pendingRequests s'))"
    using inv_distinct [OF assms(1)] by (simp add: assms)
next
  fix i h
  assume "map_of (pendingRequests s') i = Some h"
  then have "map_of (pendingRequests s) i = Some h" by (simp add: assms)
  from inv_entry [OF assms(1) this]
  show "promises s' h = None \<and> timers s' h \<noteq> None \<and> (\<exists>c. closures s' h = Some c \<and> c_id c = i)"
    by (simp add: assms)
next
  fix h
  assume "nextHandle s' \<le> h"
  then have "nextHandle s \<le> h" by (simp add: assms)
  from inv_fresh [OF assms(1) this] assms(11) [of h]
  show "closures s' h = None \<and> promises s' h = None \<and> h \<notin> set (microtasks s') \<and>
        outcomes s' h = None \<and> timers s' h = None \<and> \<not> writes s' h"
    by (auto simp add: assms(3-10))
next
  fix h c
  assume "closures s' h = Some c"
  then have "closures s h = Some c" by (simp add: assms)
  from inv_closure_id [OF assms(1) this] show "\<exists>n. c_id c = NumId n \<and> n < nextRequestId s'"
    by (simp add: assms)
next
  fix h h' c c'
  assume "closures s' h = Some c" "closures s' h' = Some c'" "c_id c = c_id c'"
  then show "h = h'"
    using inv_closure_inj [OF assms(1), of h c h' c'] by (simp add: assms)
next
  fix h
  assume "h < nextHandle s'" "promises s' h = None"
  then have "h < nextHandle s" "promises s h = None" by (simp_all add: assms)
  from inv_waiting [OF assms(1) this]
  show "\<exists>c. closures s' h = Some c \<and> map_of (pendingRequests s') (c_id c) = Some h"
    by (simp add: assms)
next
  fix h
  assume "timers s' h \<noteq> None"
  then have "timers s h \<noteq> None" by (simp add: assms)
  from inv_timer_closure [OF assms(1) this] show "closures s' h \<noteq> None" by (simp add: assms)
next
  fix h
  assume "outcomes s' h \<noteq> None"
  then have "outcomes s h \<noteq> None" by (simp add: assms)
  from inv_outcome [OF assms(1) this] show "promises s' h \<noteq> None \<and> h \<notin> set (microtasks s')"
    by (simp add: assms)
qed

lemma logged_inv: "client_inv s \<Longrightarrow> client_inv (logged l m s)"
  by (erule inv_cong) (simp_all add: logged_def)

lemma phase_inv:
  "client_inv s \<Longrightarrow> p \<noteq> Disconnected \<Longrightarrow> client_inv (s\<lparr>connectionStatus := p\<rparr>)"
  by (erule inv_cong) simp_all

lemma connect_inv:
  assumes "client_inv s"
  shows "client_inv (snd (connect spawned s))"
  by (rule inv_cong [OF assms])
     (auto simp add: connect_def logged_def Let_def split: if_splits)

lemma sendNotification_inv: "client_inv s \<Longrightarrow> client_inv (snd (sendNotification n wrote s))"
  by (simp add: sendNotification_def logged_def; intro conjI impI; erule inv_cong; simp)

lemma tick_inv: "client_inv s \<Longrightarrow> client_inv (tick d s)"
  by (erule inv_cong) (simp_all add: tick_def)

lemma write_done_inv: "client_inv s \<Longrightarrow> client_inv (write_done h s)"
  by (erule inv_cong) (simp_all add: write_done_def split: if_splits)

lemma handleNotification_inv: "client_inv s \<Longrightarrow> client_inv (handleNotification n s)"
  by (simp add: handleNotification_def Let_def logged_inv)

lemma disconnect_cleanup_fields:
  "connectionStatus (snd (disconnect_cleanup env s)) = connectionStatus s"
  "pendingRequests (snd (disconnect_cleanup env s)) = pendingRequests s"
  "nextRequestId (snd (disconnect_cleanup env s)) = nextRequestId s"
  "nextHandle (snd (disconnect_cleanup env s)) = nextHandle s"
  "closures (snd (disconnect_cleanup env s)) = closures s"
  "promises (snd (disconnect_cleanup env s)) = promises s"
  "awaiting (snd (disconnect_cleanup env s)) = awaiting s"
  "microtasks (snd (disconnect_cleanup env s)) = microtasks s"
  "outcomes (snd (disconnect_cleanup env s)) = outcomes s"
  "timers (snd (disconnect_cleanup env s)) = timers s"
  "writes (snd (disconnect_cleanup env s)) = writes s"
  "written (snd (disconnect_cleanup env s)) = written s"
  "now (snd (disconnect_cleanup env s)) = now s"
  "config (snd (disconnect_cleanup env s)) = config s"
  by (simp_all add: disconnect_cleanup_def Let_def logged_def)

lemma disconnect_cleanup_inv: "client_inv s \<Longrightarrow> client_inv (snd (disconnect_cleanup env s))"
  by (erule inv_cong) (simp_all add: disconnect_cleanup_fields)

text \<open>Queued code that resumes keeps the invariant.\<close>

lemma woken_inv:
  assumes "client_inv s" and "woken s s'"
  shows "client_inv s'"
proof (rule client_invI)
  have same: "pendingRequests s' = pendingRequests s" "nextRequestId s' = nextRequestId s"
    "nextHandle s' = nextHandle s" "closures s' = closures s" "promises s' = promises s"
    "timers s' = timers s" "writes s' = writes s"
    using assms(2) unfolding woken_def by simp_all
  have sub: "set (microtasks s') \<subseteq> set (microtasks s)"
    using assms(2) unfolding woken_def by blast
  have out: "h \<in> set (microtasks s) \<and> h \<notin> set (microtasks s') \<and> promises s h \<noteq> None"
    if "outcomes s' h \<noteq> outcomes s h" for h
    using assms(2) that unfolding woken_def by blast
  {
    assume "connectionStatus s' = Disconnected"
    with assms(2) have d: "connectionStatus s = Disconnected" unfolding woken_def by blast
    from inv_disconnected [OF assms(1) d] inv_disconnected_queue [OF assms(1) d] sub
    show "pendingRequests s' = [] \<and> microtasks s' = []" by (simp add: same)
  }
  show "distinct (map fst (pendingRequests s'))"
    using inv_distinct [OF assms(1)] by (simp add: same)
  {
    fix i h
    assume "map_of (pendingRequests s') i = Some h"
    then have "map_of (pendingRequests s) i = Some h" by (simp add: same)
    from inv_entry [OF assms(1) this]
    show "promises s' h = None \<and> timers s' h \<noteq> None \<and> (\<exists>c. closures s' h = Some c \<and> c_id c = i)"
      by (simp add: same)
  }
  {
    fix h
    assume "nextHandle s' \<le> h"
    then have "nextHandle s \<le> h" by (simp add: same)
    from inv_fresh [OF assms(1) this]
    have f: "closures s h = None" "promises s h = None" "h \<notin> set (microtasks s)"
      "outcomes s h = None" "timers s h = None" "\<not> writes s h" by simp_all
    from f(3) out [of h] have "outcomes s' h = outcomes s h" by blast
    with f sub
    show "closures s' h = None \<and> promises s' h = None \<and> h \<notin> set (microtasks s') \<and>
          outcomes s' h = None \<and> timers s' h = None \<and> \<not> writes s' h"
      by (auto simp add: same)
  }
  {
    fix h c
    assume "closures s' h = Some c"
    then have "closures s h = Some c" by (simp add: same)
    from inv_closure_id [OF assms(1) this] show "\<exists>n. c_id c = NumId n \<and> n < nextRequestId s'"
      by (simp add: same)
  }
  {
    fix h h' c c'
    assume "closures s' h = Some c" "closures s' h' = Some c'" "c_id c = c_id c'"
    then show "h = h'"
      using inv_closure_inj [OF assms(1), of h c h' c'] by (simp add: same)
  }
  {
    fix h
    assume "h < nextHandle s'" "promises s' h = None"
    then have "h < nextHandle s" "promises s h = None" by (simp_all add: same)
    from inv_waiting [OF assms(1) this]
    show "\<exists>c. closures s' h = Some c \<and> map_of (pendingRequests s') (c_id c) = Some h"
      by (simp add: same)
  }
  {
    fix h
    assume "timers s' h \<noteq> None"
    then have "timers s h \<noteq> None" by (simp add: same)
    from inv_timer_closure [OF assms(1) this] show "closures s' h \<noteq> None" by (simp add: same)
  }
  {
    fix h
    assume a: "outcomes s' h \<noteq> None"
    show "promises s' h \<noteq> None \<and> h \<notin> set (microtasks s')"
    proof (cases "outcomes s' h = outcomes s h")
      case True
      with a have "outcomes s h \<noteq> None" by simp
      from inv_outcome [OF assms(1) this] sub show ?thesis by (auto simp add: same)
    next
      case False
      from out [OF False] show ?thesis by (simp add: same)
    qed
  }
qed

lemma resumes_inv: "client_inv s \<Longrightarrow> client_inv (resumes h s)"
  by (erule woken_inv) (rule resumes_woken)

text \<open>
  \<open>sendRequest\<close>, called in a phase other than disconnected with an id that no callback
  closes over.
\<close>

lemma sendRequest_not_sent:
  assumes "connectionStatus s = Disconnected \<or> \<not> stdin s"
  shows "sendRequest req tmo k s =
           (nextHandle s,
            s\<lparr>nextHandle := nextHandle s + 1,
              closures := (closures s)(nextHandle s := None),
              promises := (promises s)(nextHandle s \<mapsto> Rejected (MCPConnectionError ''Client not connected'')),
              awaiting := (awaiting s)(nextHandle s \<mapsto> k),
              microtasks := microtasks s @ [nextHandle s],
              outcomes := (outcomes s)(nextHandle s := None),
              timers := (timers s)(nextHandle s := None),
              writes := (writes s)(nextHandle s := False)\<rparr>)"
  using assms by (auto simp add: sendRequest_def Let_def)

lemma sendRequest_sent:
  assumes "connectionStatus s \<noteq> Disconnected" and "stdin s"
  shows "sendRequest req tmo k s =
           (nextHandle s,
            s\<lparr>pendingRequests := AList.update (rq_id req) (nextHandle s) (pendingRequests s),
              nextHandle := nextHandle s + 1,
              closures := (closures s)(nextHandle s \<mapsto>
                 \<lparr>c_id = rq_id req, c_timeout = effective_timeout tmo (timeout (config s))\<rparr>),
              promises := (promises s)(nextHandle s := None),
              awaiting := (awaiting s)(nextHandle s \<mapsto> k),
              outcomes := (outcomes s)(nextHandle s := None),
              timers := (timers s)(nextHandle s \<mapsto>
                 now s + timer_delay (effective_timeout tmo (timeout (config s)))),
              writes := (writes s)(nextHandle s := True),
              written := written s @ [RequestFrame req],
              log := log s @ [(LDebug, ''Request sent'')]\<rparr>)"
  using assms by (simp add: sendRequest_def Let_def)

lemma sendRequest_handle: "fst (sendRequest req tmo k s) = nextHandle s"
  by (simp add: sendRequest_def Let_def)

lemma request_not_sent:
  assumes "connectionStatus s = Disconnected \<or> \<not> stdin s"
  shows "fst (request k m p tmo s) = nextHandle s"
    and "pendingRequests (snd (request k m p tmo s)) = pendingRequests s"
    and "nextRequestId (snd (request k m p tmo s)) = nextRequestId s + 1"
    and "nextHandle (snd (request k m p tmo s)) = nextHandle s + 1"
    and "closures (snd (request k m p tmo s)) = (closures s)(nextHandle s := None)"
    and "promises (snd (request k m p tmo s)) =
           (promises s)(nextHandle s \<mapsto> Rejected (MCPConnectionError ''Client not connected''))"
    and "awaiting (snd (request k m p tmo s)) = (awaiting s)(nextHandle s \<mapsto> k)"
    and "microtasks (snd (request k m p tmo s)) = microtasks s @ [nextHandle s]"
    and "outcomes (snd (request k m p tmo s)) = (outcomes s)(nextHandle s := None)"
    and "timers (snd (request k m p tmo s)) = (timers s)(nextHandle s := None)"
    and "writes (snd (request k m p tmo s)) = (writes s)(nextHandle s := False)"
    and "connectionStatus (snd (request k m p tmo s)) = connectionStatus s"
    and "written (snd (request k m p tmo s)) = written s"
    and "now (snd (request k m p tmo s)) = now s"
    and "stdin (snd (request k m p tmo s)) = stdin s"
    and "config (snd (request k m p tmo s)) = config s"
  using assms by (simp_all add: request_def getNextRequestId_def sendRequest_not_sent)

lemma request_sent:
  assumes "connectionStatus s \<noteq> Disconnected" and "stdin s"
  shows "fst (request k m p tmo s) = nextHandle s"
    and "pendingRequests (snd (request k m p tmo s)) =
           AList.update (NumId (nextRequestId s)) (nextHandle s) (pendingRequests s)"
    and "nextRequestId (snd (request k m p tmo s)) = nextRequestId s + 1"
    and "nextHandle (snd (request k m p tmo s)) = nextHandle s + 1"
    and "closures (snd (request k m p tmo s)) =
           (closures s)(nextHandle s \<mapsto> \<lparr>c_id = NumId (nextRequestId s),
              c_timeout = effective_timeout tmo (timeout (config s))\<rparr>)"
    and "promises (snd (request k m p tmo s)) = (promises s)(nextHandle s := None)"
    and "awaiting (snd (request k m p tmo s)) = (awaiting s)(nextHandle s \<mapsto> k)"
    and "microtasks (snd (request k m p tmo s)) = microtasks s"
    and "outcomes (snd (request k m p tmo s)) = (outcomes s)(nextHandle s := None)"
    and "timers (snd (request k m p tmo s)) =
           (timers s)(nextHandle s \<mapsto> now s + timer_delay (effective_timeout tmo (timeout (config s))))"
    and "writes (snd (request k m p tmo s)) = (writes s)(nextHandle s := True)"
    and "connectionStatus (snd (request k m p tmo s)) = connectionStatus s"
    and "written (snd (request k m p tmo s)) =
           written s @ [RequestFrame \<lparr>rq_id = NumId (nextRequestId s), rq_method = m, rq_params = p\<rparr>]"
    and "now (snd (request k m p tmo s)) = now s"
    and "stdin (snd (request k m p tmo s)) = stdin s"
    and "config (snd (request k m p tmo s)) = config s"
  using assms by (simp_all add: request_def getNextRequestId_def sendRequest_sent)

lemma request_handle: "fst (request k m p tmo s) = nextHandle s"
  by (simp add: request_def getNextRequestId_def sendRequest_handle)

lemma inv_id_unused:
  assumes "client_inv s"
  shows "map_of (pendingRequests s) (NumId (nextRequestId s)) = None"
proof (cases "map_of (pendingRequests s) (NumId (nextRequestId s))")
  case None
  then show ?thesis .
next
  case (Some h)
  from inv_entry [OF assms Some] obtain c where c: "closures s h = Some c" "c_id c = NumId (nextRequestId s)"
    by blast
  from inv_closure_id [OF assms c(1)] c(2) show ?thesis by simp
qed

lemma request_inv:
  assumes "client_inv s" and "connectionStatus s \<noteq> Disconnected"
  shows "client_inv (snd (request k m p tmo s))"
proof (cases "stdin s")
  case False
  let ?s = "snd (request k m p tmo s)"
  let ?h = "nextHandle s"
  from False have ns: "connectionStatus s = Disconnected \<or> \<not> stdin s" by simp
  note f = request_not_sent [OF ns, of k m p tmo]
  show ?thesis
  proof (rule client_invI)
    assume "connectionStatus ?s = Disconnected"
    with assms(2) show "pendingRequests ?s = [] \<and> microtasks ?s = []" by (simp add: f)
  next
    show "distinct (map fst (pendingRequests ?s))"
      using inv_distinct [OF assms(1)] by (simp add: f)
  next
    fix i h
    assume "map_of (pendingRequests ?s) i = Some h"
    then have e: "map_of (pendingRequests s) i = Some h" by (simp add: f)
    from inv_entry_handle [OF assms(1) e] have "h \<noteq> ?h" by simp
    with inv_entry [OF assms(1) e]
    show "promises ?s h = None \<and> timers ?s h \<noteq> None \<and> (\<exists>c. closures ?s h = Some c \<and> c_id c = i)"
      by (simp add: f)
  next
    fix h
    assume "nextHandle ?s \<le> h"
    then have "nextHandle s \<le> h" "h \<noteq> ?h" by (simp_all add: f)
    with inv_fresh [OF assms(1), of h]
    show "closures ?s h = None \<and> promises ?s h = None \<and> h \<notin> set (microtasks ?s) \<and>
          outcomes ?s h = None \<and> timers ?s h = None \<and> \<not> writes ?s h"
      by (simp add: f)
  next
    fix h c
    assume "closures ?s h = Some c"
    then have "closures s h = Some c" by (simp add: f split: if_splits)
    from inv_closure_id [OF assms(1) this] show "\<exists>n. c_id c = NumId n \<and> n < nextRequestId ?s"
      by (auto simp add: f)
  next
    fix h h' c c'
    assume "closures ?s h = Some c" "closures ?s h' = Some c'" "c_id c = c_id c'"
    then have "closures s h = Some c" "closures s h' = Some c'" "c_id c = c_id c'"
      by (simp_all add: f split: if_splits)
    then show "h = h'" by (rule inv_closure_inj [OF assms(1)])
  next
    fix h
    assume "h < nextHandle ?s" "promises ?s h = None"
    then have "h < nextHandle s" "promises s h = None" "h \<noteq> ?h"
      by (auto simp add: f split: if_splits)
    with inv_waiting [OF assms(1), of h]
    show "\<exists>c. closures ?s h = Some c \<and> map_of (pendingRequests ?s) (c_id c) = Some h"
      by (simp add: f)
  next
    fix h
    assume "timers ?s h \<noteq> None"
    then have "timers s h \<noteq> None" "h \<noteq> ?h" by (auto simp add: f split: if_splits)
    with inv_timer_closure [OF assms(1), of h] show "closures ?s h \<noteq> None" by (simp add: f)
  next
    fix h
    assume "outcomes ?s h \<noteq> None"
    then have "outcomes s h \<noteq> None" "h \<noteq> ?h" by (auto simp add: f split: if_splits)
    with inv_outcome [OF assms(1), of h] show "promises ?s h \<noteq> None \<and> h \<notin> set (microtasks ?s)"
      by (simp add: f)
  qed
next
  case True
  let ?s = "snd (request k m p tmo s)"
  let ?h = "nextHandle s"
  let ?i = "NumId (nextRequestId s)"
  note f = request_sent [OF assms(2) True, of k m p tmo]
  note unused = inv_id_unused [OF assms(1)]
  have old_id: "c_id c \<noteq> ?i" if "closures s h = Some c" for h c
    using inv_closure_id [OF assms(1) that] by auto
  show ?thesis
  proof (rule client_invI)
    assume "connectionStatus ?s = Disconnected"
    with assms(2) show "pendingRequests ?s = [] \<and> microtasks ?s = []" by (simp add: f)
  next
    show "distinct (map fst (pendingRequests ?s))"
      using inv_distinct [OF assms(1)] by (simp add: f distinct_update)
  next
    fix i h
    assume a: "map_of (pendingRequests ?s) i = Some h"
    show "promises ?s h = None \<and> timers ?s h \<noteq> None \<and> (\<exists>c. closures ?s h = Some c \<and> c_id c = i)"
    proof (cases "i = ?i")
      case True
      with a have "h = ?h" by (simp add: f update_conv')
      with True show ?thesis by (simp add: f)
    next
      case False
      with a have e: "map_of (pendingRequests s) i = Some h" by (simp add: f update_conv')
      from inv_entry_handle [OF assms(1) e] have "h \<noteq> ?h" by simp
      with inv_entry [OF assms(1) e] show ?thesis by (simp add: f)
    qed
  next
    fix h
    assume "nextHandle ?s \<le> h"
    then have "nextHandle s \<le> h" "h \<noteq> ?h" by (simp_all add: f)
    with inv_fresh [OF assms(1), of h]
    show "closures ?s h = None \<and> promises ?s h = None \<and> h \<notin> set (microtasks ?s) \<and>
          outcomes ?s h = None \<and> timers ?s h = None \<and> \<not> writes ?s h"
      by (simp add: f)
  next
    fix h c
    assume a: "closures ?s h = Some c"
    show "\<exists>n. c_id c = NumId n \<and> n < nextRequestId ?s"
    proof (cases "h = ?h")
      case True
      with a show ?thesis by (auto simp add: f)
    next
      case False
      with a have "closures s h = Some c" by (simp add: f)
      from inv_closure_id [OF assms(1) this] show ?thesis by (auto simp add: f)
    qed
  next
    fix h h' c c'
    assume a: "closures ?s h = Some c" "closures ?s h' = Some c'" "c_id c = c_id c'"
    show "h = h'"
    proof (cases "h = ?h")
      case True
      with a(1) have c: "c_id c = ?i" by (auto simp add: f)
      show ?thesis
      proof (rule ccontr)
        assume "h \<noteq> h'"
        with True a(2) have "closures s h' = Some c'" by (simp add: f)
        from old_id [OF this] c a(3) show False by simp
      qed
    next
      case False
      with a(1) have c: "closures s h = Some c" by (simp add: f)
      show ?thesis
      proof (cases "h' = ?h")
        case True
        with a(2) have "c_id c' = ?i" by (auto simp add: f)
        with old_id [OF c] a(3) show ?thesis by simp
      next
        case False
        with a(2) have "closures s h' = Some c'" by (simp add: f)
        from inv_closure_inj [OF assms(1) c this a(3)] show ?thesis .
      qed
    qed
  next
    fix h
    assume a: "h < nextHandle ?s" "promises ?s h = None"
    show "\<exists>c. closures ?s h = Some c \<and> map_of (pendingRequests ?s) (c_id c) = Some h"
    proof (cases "h = ?h")
      case True
      then show ?thesis by (simp add: f update_conv')
    next
      case False
      with a have "h < nextHandle s" "promises s h = None" by (simp_all add: f)
      from inv_waiting [OF assms(1) this] obtain c
        where c: "closures s h = Some c" "map_of (pendingRequests s) (c_id c) = Some h" by blast
      from old_id [OF c(1)] c False show ?thesis by (simp add: f update_conv')
    qed
  next
    fix h
    assume a: "timers ?s h \<noteq> None"
    show "closures ?s h \<noteq> None"
    proof (cases "h = ?h")
      case True
      then show ?thesis by (simp add: f)
    next
      case False
      with a have "timers s h \<noteq> None" by (simp add: f)
      from inv_timer_closure [OF assms(1) this] False show ?thesis by (simp add: f)
    qed
  next
    fix h
    assume "outcomes ?s h \<noteq> None"
    then have "outcomes s h \<noteq> None" "h \<noteq> ?h" by (auto simp add: f split: if_splits)
    with inv_outcome [OF assms(1), of h] show "promises ?s h \<noteq> None \<and> h \<notin> set (microtasks ?s)"
      by (simp add: f)
  qed
qed

text \<open>
  What the three callbacks of a request do: the entry under its id leaves the table, its
  timer or its write is over, and its promise is settled.
\<close>

lemma delete_absent: "map_of al k = None \<Longrightarrow> AList.delete k al = al"
  by (simp add: map_of_eq_None_iff)

lemma remove_settle_inv:
  assumes "client_inv s" and "closures s h = Some c"
    and "connectionStatus s0 = connectionStatus s"
    and "pendingRequests s0 = AList.delete (c_id c) (pendingRequests s)"
    and "nextRequestId s0 = nextRequestId s"
    and "nextHandle s0 = nextHandle s"
    and "closures s0 = closures s"
    and "promises s0 = promises s"
    and "microtasks s0 = microtasks s"
    and "outcomes s0 = outcomes s"
    and "\<And>h'. h' \<noteq> h \<Longrightarrow> timers s0 h' = timers s h'"
    and "timers s0 h = None \<or> timers s0 h = timers s h"
    and "\<And>h'. writes s0 h' \<Longrightarrow> writes s h'"
  shows "client_inv (settle h v s0)"
proof -
  let ?s = "settle h v s0"
  note inv = assms(1)
  have hh: "h < nextHandle s" by (rule inv_closure_handle [OF inv assms(2)])
  have same: "connectionStatus ?s = connectionStatus s"
    "pendingRequests ?s = AList.delete (c_id c) (pendingRequests s)"
    "nextRequestId ?s = nextRequestId s" "nextHandle ?s = nextHandle s"
    "closures ?s = closures s" "outcomes ?s = outcomes s"
    by (simp_all add: settle_fields assms)
  have tm: "timers ?s h' = timers s h'" if "h' \<noteq> h" for h'
    using assms(11) [OF that] by (simp add: settle_fields)
  have tm': "timers ?s h' \<noteq> None \<Longrightarrow> timers s h' \<noteq> None" for h'
    using assms(11) [of h'] assms(12) by (cases "h' = h") (auto simp add: settle_fields)
  have wr: "writes ?s h' \<Longrightarrow> writes s h'" for h'
    using assms(13) [of h'] by (simp add: settle_fields)
  have other: "c_id c' \<noteq> c_id c" if "closures s h' = Some c'" "h' \<noteq> h" for h' c'
    using inv_closure_inj [OF inv that(1) assms(2)] that(2) by blast
  have kept: "map_of (pendingRequests ?s) i = Some h' \<longleftrightarrow> map_of (pendingRequests s) i = Some h'"
    if "i \<noteq> c_id c" for i h'
    using that by (simp add: same delete_conv')
  have gone: "map_of (pendingRequests ?s) (c_id c) = None"
    by (simp add: same delete_conv')
  have entry: "map_of (pendingRequests s) i = Some h' \<and> i \<noteq> c_id c"
    if "map_of (pendingRequests ?s) i = Some h'" for i h'
    using that gone kept [of i h'] by (cases "i = c_id c") simp_all
  show ?thesis
  proof (cases "promises s h")
    case None
    have pr: "promises ?s = (promises s)(h \<mapsto> v)" "microtasks ?s = microtasks s @ [h]"
      using None by (simp_all add: settle_promises settle_microtasks assms)
    from inv_pending_iff [OF inv assms(2)] None
    have pending: "map_of (pendingRequests s) (c_id c) = Some h" by simp
    have live: "connectionStatus s \<noteq> Disconnected"
      using inv_disconnected [OF inv] pending by auto
    show ?thesis
    proof (rule client_invI)
      assume "connectionStatus ?s = Disconnected"
      with live show "pendingRequests ?s = [] \<and> microtasks ?s = []" by (simp add: same)
    next
      show "distinct (map fst (pendingRequests ?s))"
        using inv_distinct [OF inv] by (simp add: same distinct_delete)
    next
      fix i h'
      assume "map_of (pendingRequests ?s) i = Some h'"
      from entry [OF this] have e: "map_of (pendingRequests s) i = Some h'" "i \<noteq> c_id c" by simp_all
      from inv_entry [OF inv e(1)] obtain c' where c': "promises s h' = None" "timers s h' \<noteq> None"
        "closures s h' = Some c'" "c_id c' = i" by blast
      from c'(3,4) e(2) assms(2) have "h' \<noteq> h" by auto
      with c' tm [of h']
      show "promises ?s h' = None \<and> timers ?s h' \<noteq> None \<and> (\<exists>c. closures ?s h' = Some c \<and> c_id c = i)"
        by (simp add: pr same)
    next
      fix h'
      assume "nextHandle ?s \<le> h'"
      then have "nextHandle s \<le> h'" "h' \<noteq> h" using hh by (simp_all add: same)
      with inv_fresh [OF inv, of h'] tm [of h'] wr [of h']
      show "closures ?s h' = None \<and> promises ?s h' = None \<and> h' \<notin> set (microtasks ?s) \<and>
            outcomes ?s h' = None \<and> timers ?s h' = None \<and> \<not> writes ?s h'"
        by (auto simp add: pr same)
    next
      fix h' c'
      assume "closures ?s h' = Some c'"
      then have "closures s h' = Some c'" by (simp add: same)
      from inv_closure_id [OF inv this] show "\<exists>n. c_id c' = NumId n \<and> n < nextRequestId ?s"
        by (simp add: same)
    next
      fix h1 h2 c1 c2
      assume "closures ?s h1 = Some c1" "closures ?s h2 = Some c2" "c_id c1 = c_id c2"
      then show "h1 = h2"
        using inv_closure_inj [OF inv, of h1 c1 h2 c2] by (simp add: same)
    next
      fix h'
      assume a: "h' < nextHandle ?s" "promises ?s h' = None"
      then have n: "h' \<noteq> h" by (auto simp add: pr)
      with a have "h' < nextHandle s" "promises s h' = None" by (simp_all add: pr same)
      from inv_waiting [OF inv this] obtain c'
        where c': "closures s h' = Some c'" "map_of (pendingRequests s) (c_id c') = Some h'" by blast
      from other [OF c'(1) n] c' kept [of "c_id c'" h']
      show "\<exists>c. closures ?s h' = Some c \<and> map_of (pendingRequests ?s) (c_id c) = Some h'"
        by (simp add: same)
    next
      fix h'
      assume "timers ?s h' \<noteq> None"
      from inv_timer_closure [OF inv tm' [OF this]] show "closures ?s h' \<noteq> None" by (simp add: same)
    next
      fix h'
      assume "outcomes ?s h' \<noteq> None"
      then have "outcomes s h' \<noteq> None" by (simp add: same)
      from inv_outcome [OF inv this] have o: "promises s h' \<noteq> None" "h' \<notin> set (microtasks s)" by simp_all
      from o(1) None have "h' \<noteq> h" by auto
      with o show "promises ?s h' \<noteq> None \<and> h' \<notin> set (microtasks ?s)" by (simp add: pr)
    qed
  next
    case (Some w)
    have pr: "promises ?s = promises s" "microtasks ?s = microtasks s"
      using Some by (simp_all add: settle_promises settle_microtasks assms)
    from inv_settled_no_entry [OF inv assms(2)] Some
    have "map_of (pendingRequests s) (c_id c) = None" by simp
    then have tb: "pendingRequests ?s = pendingRequests s" by (simp add: same delete_absent)
    show ?thesis
    proof (rule client_invI)
      assume "connectionStatus ?s = Disconnected"
      then have d: "connectionStatus s = Disconnected" by (simp add: same)
      from inv_disconnected [OF inv d] inv_disconnected_queue [OF inv d]
      show "pendingRequests ?s = [] \<and> microtasks ?s = []" by (simp add: tb pr)
    next
      show "distinct (map fst (pendingRequests ?s))"
        using inv_distinct [OF inv] by (simp add: tb)
    next
      fix i h'
      assume "map_of (pendingRequests ?s) i = Some h'"
      then have e: "map_of (pendingRequests s) i = Some h'" by (simp add: tb)
      from inv_entry [OF inv e] obtain c' where c': "promises s h' = None" "timers s h' \<noteq> None"
        "closures s h' = Some c'" "c_id c' = i" by blast
      from c'(1) Some have "h' \<noteq> h" by auto
      with c' tm [of h']
      show "promises ?s h' = None \<and> timers ?s h' \<noteq> None \<and> (\<exists>c. closures ?s h' = Some c \<and> c_id c = i)"
        by (simp add: pr same)
    next
      fix h'
      assume "nextHandle ?s \<le> h'"
      then have "nextHandle s \<le> h'" "h' \<noteq> h" using hh by (simp_all add: same)
      with inv_fresh [OF inv, of h'] tm [of h'] wr [of h']
      show "closures ?s h' = None \<and> promises ?s h' = None \<and> h' \<notin> set (microtasks ?s) \<and>
            outcomes ?s h' = None \<and> timers ?s h' = None \<and> \<not> writes ?s h'"
        by (auto simp add: pr same)
    next
      fix h' c'
      assume "closures ?s h' = Some c'"
      then have "closures s h' = Some c'" by (simp add: same)
      from inv_closure_id [OF inv this] show "\<exists>n. c_id c' = NumId n \<and> n < nextRequestId ?s"
        by (simp add: same)
    next
      fix h1 h2 c1 c2
      assume "closures ?s h1 = Some c1" "closures ?s h2 = Some c2" "c_id c1 = c_id c2"
      then show "h1 = h2"
        using inv_closure_inj [OF inv, of h1 c1 h2 c2] by (simp add: same)
    next
      fix h'
      assume "h' < nextHandle ?s" "promises ?s h' = None"
      then have "h' < nextHandle s" "promises s h' = None" by (simp_all add: pr same)
      from inv_waiting [OF inv this]
      show "\<exists>c. closures ?s h' = Some c \<and> map_of (pendingRequests ?s) (c_id c) = Some h'"
        by (simp add: same(5) tb)
    next
      fix h'
      assume "timers ?s h' \<noteq> None"
      from inv_timer_closure [OF inv tm' [OF this]] show "closures ?s h' \<noteq> None" by (simp add: same)
    next
      fix h'
      assume "outcomes ?s h' \<noteq> None"
      then have "outcomes s h' \<noteq> None" by (simp add: same)
      from inv_outcome [OF inv this] show "promises ?s h' \<noteq> None \<and> h' \<notin> set (microtasks ?s)"
        by (simp add: pr)
    qed
  qed
qed

lemma timer_fires_idle:
  "timers s h = None \<or> (\<exists>due. timers s h = Some due \<and> now s < due) \<Longrightarrow> timer_fires h s = s"
  by (auto simp add: timer_fires_def)

lemma timer_fires_due:
  assumes "timers s h = Some due" and "due \<le> now s" and "closures s h = Some c"
  shows "timer_fires h s =
           settle h (Rejected (MCPTimeoutError (timeout_message (c_timeout c))))
             (s\<lparr>timers := (timers s)(h := None),
               pendingRequests := AList.delete (c_id c) (pendingRequests s)\<rparr>)"
  using assms by (simp add: timer_fires_def timeout_callback_def)

lemma timer_fires_inv:
  assumes "client_inv s"
  shows "client_inv (timer_fires h s)"
proof (cases "timers s h = None \<or> (\<exists>due. timers s h = Some due \<and> now s < due)")
  case True
  then show ?thesis using assms by (simp add: timer_fires_idle)
next
  case False
  then obtain due where d: "timers s h = Some due" "due \<le> now s" by auto
  from inv_timer_closure [OF assms, of h] d obtain c where c: "closures s h = Some c" by auto
  show ?thesis
    unfolding timer_fires_due [OF d c]
    by (rule remove_settle_inv [OF assms c]) simp_all
qed

lemma write_fails_idle: "\<not> writes s h \<or> closures s h = None \<Longrightarrow> write_fails h s = s\<lparr>writes := (writes s)(h := False)\<rparr>"
  by (auto simp add: write_fails_def write_callback_def fun_upd_idem)

lemma write_fails_live:
  assumes "writes s h" and "closures s h = Some c"
  shows "write_fails h s =
           settle h (Rejected (MCPConnectionError ''Failed to send request''))
             (s\<lparr>writes := (writes s)(h := False),
               pendingRequests := AList.delete (c_id c) (pendingRequests s)\<rparr>)"
  using assms by (simp add: write_fails_def write_callback_def)

lemma write_fails_inv:
  assumes "client_inv s"
  shows "client_inv (write_fails h s)"
proof (cases "\<not> writes s h \<or> closures s h = None")
  case True
  show ?thesis
    unfolding write_fails_idle [OF True]
    by (rule inv_cong [OF assms]) (simp_all split: if_splits)
next
  case False
  then obtain c where c: "writes s h" "closures s h = Some c" by auto
  show ?thesis
    unfolding write_fails_live [OF c]
    by (rule remove_settle_inv [OF assms c(2)]) (simp_all split: if_splits)
qed

lemma find_pending_entry:
  "find_pending message s = Some (k, h) \<Longrightarrow> map_of (pendingRequests s) k = Some h"
  by (auto simp add: find_pending_def split: option.splits)

lemma processMessage_inv:
  assumes "client_inv s"
  shows "client_inv (processMessage parsed s)"
proof (cases parsed)
  case None
  then show ?thesis by (simp add: processMessage_def logged_inv [OF assms])
next
  case (Some message)
  show ?thesis
  proof (cases "field ''jsonrpc'' message = Some (JStr ''2.0'')")
    case False
    with Some show ?thesis by (simp add: processMessage_def logged_inv [OF assms])
  next
    case True
    show ?thesis
    proof (cases "find_pending message s")
      case None
      with Some True show ?thesis
        by (simp add: processMessage_def logged_inv [OF assms] handleNotification_inv [OF assms])
    next
      case (Some kh)
      obtain k h where kh: "kh = (k, h)" by (cases kh)
      from find_pending_entry Some kh have e: "map_of (pendingRequests s) k = Some h" by simp
      from inv_entry [OF assms e] obtain c where c: "closures s h = Some c" "c_id c = k" by blast
      have pm: "processMessage parsed s =
          settle h (Resolved message)
            (s\<lparr>pendingRequests := AList.delete (c_id c) (pendingRequests s),
               timers := (timers s)(h := None)\<rparr>)"
        using \<open>parsed = Some message\<close> True Some kh c by (simp add: processMessage_def)
      show ?thesis
        unfolding pm by (rule remove_settle_inv [OF assms c(1)]) simp_all
    qed
  qed
qed

text \<open>The loop of \<open>disconnect\<close>.\<close>

lemma fold_settle_fields:
  "pendingRequests (fold (\<lambda>(i, h). settle h v) xs s) = pendingRequests s"
  "closures (fold (\<lambda>(i, h). settle h v) xs s) = closures s"
  "awaiting (fold (\<lambda>(i, h). settle h v) xs s) = awaiting s"
  "outcomes (fold (\<lambda>(i, h). settle h v) xs s) = outcomes s"
  "timers (fold (\<lambda>(i, h). settle h v) xs s) = timers s"
  "writes (fold (\<lambda>(i, h). settle h v) xs s) = writes s"
  "nextHandle (fold (\<lambda>(i, h). settle h v) xs s) = nextHandle s"
  "nextRequestId (fold (\<lambda>(i, h). settle h v) xs s) = nextRequestId s"
  "connectionStatus (fold (\<lambda>(i, h). settle h v) xs s) = connectionStatus s"
  "now (fold (\<lambda>(i, h). settle h v) xs s) = now s"
  "written (fold (\<lambda>(i, h). settle h v) xs s) = written s"
  "log (fold (\<lambda>(i, h). settle h v) xs s) = log s"
  "stdin (fold (\<lambda>(i, h). settle h v) xs s) = stdin s"
  "stdout (fold (\<lambda>(i, h). settle h v) xs s) = stdout s"
  "stderr (fold (\<lambda>(i, h). settle h v) xs s) = stderr s"
  "process (fold (\<lambda>(i, h). settle h v) xs s) = process s"
  "config (fold (\<lambda>(i, h). settle h v) xs s) = config s"
  "buffer (fold (\<lambda>(i, h). settle h v) xs s) = buffer s"
  by (induction xs arbitrary: s; simp add: settle_fields split_beta)+

lemma fold_settle_promises:
  "promises (fold (\<lambda>(i, h). settle h v) xs s) h =
     (if promises s h = None \<and> h \<in> snd ` set xs then Some v else promises s h)"
proof (induction xs arbitrary: s)
  case Nil
  show ?case by simp
next
  case (Cons x xs)
  obtain i h' where x: "x = (i, h')" by (cases x)
  show ?case by (auto simp add: x Cons.IH settle_promises)
qed

lemma fold_settle_microtasks:
  "set (microtasks (fold (\<lambda>(i, h). settle h v) xs s)) =
     set (microtasks s) \<union> {h \<in> snd ` set xs. promises s h = None}"
proof (induction xs arbitrary: s)
  case Nil
  show ?case by simp
next
  case (Cons x xs)
  obtain i h' where x: "x = (i, h')" by (cases x)
  show ?case by (auto simp add: x Cons.IH settle_promises settle_microtasks)
qed

lemma disconnect_begin_fields:
  "pendingRequests (disconnect_begin s) = []"
  "connectionStatus (disconnect_begin s) = Disconnected"
  "closures (disconnect_begin s) = closures s"
  "awaiting (disconnect_begin s) = awaiting s"
  "outcomes (disconnect_begin s) = outcomes s"
  "timers (disconnect_begin s) = timers s"
  "writes (disconnect_begin s) = writes s"
  "nextHandle (disconnect_begin s) = nextHandle s"
  "nextRequestId (disconnect_begin s) = nextRequestId s"
  "now (disconnect_begin s) = now s"
  "written (disconnect_begin s) = written s"
  "stdin (disconnect_begin s) = stdin s"
  "stdout (disconnect_begin s) = stdout s"
  "stderr (disconnect_begin s) = stderr s"
  "process (disconnect_begin s) = process s"
  "config (disconnect_begin s) = config s"
  "buffer (disconnect_begin s) = buffer s"
  by (simp_all add: disconnect_begin_def reject_all_def fold_settle_fields logged_def)

lemma disconnect_begin_promises:
  "promises (disconnect_begin s) h =
     (if promises s h = None \<and> h \<in> snd ` set (pendingRequests s)
      then Some (Rejected (MCPConnectionError ''Connection closed'')) else promises s h)"
  by (simp add: disconnect_begin_def reject_all_def fold_settle_promises logged_def)

lemma disconnect_begin_microtasks:
  "set (microtasks (disconnect_begin s)) =
     set (microtasks s) \<union> {h \<in> snd ` set (pendingRequests s). promises s h = None}"
  by (simp add: disconnect_begin_def reject_all_def fold_settle_microtasks logged_def)

text \<open>What a call of \<open>disconnect\<close> in a phase other than disconnected leaves behind.\<close>

lemma disconnect_effect:
  assumes "connectionStatus s \<noteq> Disconnected"
  shows "pendingRequests (snd (disconnect env s)) = []"
    and "microtasks (snd (disconnect env s)) = []"
    and "promises (snd (disconnect env s)) = promises (disconnect_begin s)"
    and "closures (snd (disconnect env s)) = closures s"
    and "awaiting (snd (disconnect env s)) = awaiting s"
    and "timers (snd (disconnect env s)) = timers s"
    and "writes (snd (disconnect env s)) = writes s"
    and "nextHandle (snd (disconnect env s)) = nextHandle s"
    and "nextRequestId (snd (disconnect env s)) = nextRequestId s"
    and "now (snd (disconnect env s)) = now s"
    and "written (snd (disconnect env s)) = written s"
    and "config (snd (disconnect env s)) = config s"
    and "\<And>h. outcomes (snd (disconnect env s)) h \<noteq> outcomes s h \<Longrightarrow>
           h \<in> set (microtasks (disconnect_begin s)) \<and> promises (disconnect_begin s) h \<noteq> None"
proof -
  let ?b = "disconnect_begin s"
  let ?f = "snd (disconnect env s)"
  have cl: "same_stores x (snd (disconnect_cleanup env x))" for x
    by (simp add: same_stores_def disconnect_cleanup_fields)
  have "\<exists>m d. same_stores ?b m \<and> woken m d \<and> microtasks d = [] \<and> same_stores d ?f"
  proof (cases "stdin ?b \<or> stdout ?b \<or> stderr ?b \<or> process ?b")
    case True
    with assms have f: "?f = snd (disconnect_cleanup env (drain ?b))"
      by (simp add: disconnect_def Let_def)
    have "same_stores ?b ?b" by (simp add: same_stores_def)
    moreover have "woken ?b (drain ?b)" by (rule drain_woken)
    moreover have "microtasks (drain ?b) = []" by (rule drain_microtasks)
    moreover have "same_stores (drain ?b) ?f" unfolding f by (rule cl)
    ultimately show ?thesis by blast
  next
    case False
    with assms have f: "?f = drain (snd (disconnect_cleanup env ?b))"
      by (simp add: disconnect_def Let_def split_beta)
    have "same_stores ?b (snd (disconnect_cleanup env ?b))" by (rule cl)
    moreover have "woken (snd (disconnect_cleanup env ?b)) ?f" unfolding f by (rule drain_woken)
    moreover have "microtasks ?f = []" unfolding f by (rule drain_microtasks)
    moreover have "same_stores ?f ?f" by (simp add: same_stores_def)
    ultimately show ?thesis by blast
  qed
  then obtain m d where m: "same_stores ?b m" and w: "woken m d" and e: "microtasks d = []"
    and d: "same_stores d ?f" by blast
  note b = disconnect_begin_fields [of s]
  from m have mf: "pendingRequests m = []" "closures m = closures s" "awaiting m = awaiting s"
    "timers m = timers s" "writes m = writes s" "nextHandle m = nextHandle s"
    "nextRequestId m = nextRequestId s" "now m = now s" "written m = written s"
    "config m = config s" "outcomes m = outcomes s" "promises m = promises ?b"
    "microtasks m = microtasks ?b"
    unfolding same_stores_def by (simp_all add: b)
  from w have wf: "pendingRequests d = pendingRequests m" "closures d = closures m"
    "awaiting d = awaiting m" "timers d = timers m" "writes d = writes m"
    "nextHandle d = nextHandle m" "nextRequestId d = nextRequestId m" "now d = now m"
    "written d = written m" "config d = config m" "promises d = promises m"
    unfolding woken_def by simp_all
  from d have df: "pendingRequests ?f = pendingRequests d" "closures ?f = closures d"
    "awaiting ?f = awaiting d" "timers ?f = timers d" "writes ?f = writes d"
    "nextHandle ?f = nextHandle d" "nextRequestId ?f = nextRequestId d" "now ?f = now d"
    "written ?f = written d" "config ?f = config d" "promises ?f = promises d"
    "microtasks ?f = microtasks d" "outcomes ?f = outcomes d"
    unfolding same_stores_def by simp_all
  show "pendingRequests ?f = []" by (simp add: df wf mf)
  show "microtasks ?f = []" by (simp add: df e)
  show "promises ?f = promises ?b" by (simp add: df wf mf)
  show "closures ?f = closures s" by (simp add: df wf mf)
  show "awaiting ?f = awaiting s" by (simp add: df wf mf)
  show "timers ?f = timers s" by (simp add: df wf mf)
  show "writes ?f = writes s" by (simp add: df wf mf)
  show "nextHandle ?f = nextHandle s" by (simp add: df wf mf)
  show "nextRequestId ?f = nextRequestId s" by (simp add: df wf mf)
  show "now ?f = now s" by (simp add: df wf mf)
  show "written ?f = written s" by (simp add: df wf mf)
  show "config ?f = config s" by (simp add: df wf mf)
  show "h \<in> set (microtasks ?b) \<and> promises ?b h \<noteq> None"
    if "outcomes ?f h \<noteq> outcomes s h" for h
  proof -
    from that have "outcomes d h \<noteq> outcomes m h" by (simp add: df mf)
    with w have "h \<in> set (microtasks m) \<and> promises m h \<noteq> None" unfolding woken_def by blast
    then show ?thesis by (simp add: mf)
  qed
qed

lemma disconnect_idle:
  "connectionStatus s = Disconnected \<Longrightarrow> disconnect env s = (Returned RVoid, s)"
  by (simp add: disconnect_def)

lemma disconnect_inv:
  assumes "client_inv s"
  shows "client_inv (snd (disconnect env s))"
proof (cases "connectionStatus s = Disconnected")
  case True
  then show ?thesis using assms by (simp add: disconnect_idle)
next
  case False
  let ?b = "disconnect_begin s"
  let ?f = "snd (disconnect env s)"
  note f = disconnect_effect [OF False, of env]
  have settled: "promises ?f h \<noteq> None" if "h < nextHandle s" for h
  proof (cases "promises s h")
    case None
    from inv_waiting [OF assms that None] obtain c
      where c: "closures s h = Some c" "map_of (pendingRequests s) (c_id c) = Some h" by blast
    from map_of_SomeD [OF c(2)] have "h \<in> snd ` set (pendingRequests s)"
      by force
    with None show ?thesis by (simp add: f disconnect_begin_promises)
  next
    case (Some w)
    then show ?thesis by (simp add: f disconnect_begin_promises)
  qed
  have fresh: "promises ?f h = None \<and> outcomes ?f h = None" if "nextHandle s \<le> h" for h
  proof -
    from inv_fresh [OF assms that] have n: "promises s h = None" "outcomes s h = None"
      "h \<notin> set (microtasks s)" by simp_all
    have t: "h \<notin> snd ` set (pendingRequests s)"
    proof
      assume "h \<in> snd ` set (pendingRequests s)"
      then obtain i where "(i, h) \<in> set (pendingRequests s)" by force
      with inv_distinct [OF assms] have "map_of (pendingRequests s) i = Some h" by simp
      from inv_entry_handle [OF assms this] that show False by simp
    qed
    from n t have p: "promises ?f h = None" by (simp add: f disconnect_begin_promises)
    from n t have q: "h \<notin> set (microtasks ?b)" by (simp add: disconnect_begin_microtasks)
    have "outcomes ?f h = outcomes s h"
    proof (rule ccontr)
      assume "outcomes ?f h \<noteq> outcomes s h"
      from f(13) [OF this] q show False by simp
    qed
    with p n(2) show ?thesis by simp
  qed
  show ?thesis
  proof (rule client_invI)
    show "pendingRequests ?f = [] \<and> microtasks ?f = []" by (simp add: f)
  next
    show "distinct (map fst (pendingRequests ?f))" by (simp add: f)
  next
    fix i h
    assume "map_of (pendingRequests ?f) i = Some h"
    then show "promises ?f h = None \<and> timers ?f h \<noteq> None \<and> (\<exists>c. closures ?f h = Some c \<and> c_id c = i)"
      by (simp add: f)
  next
    fix h
    assume "nextHandle ?f \<le> h"
    then have n: "nextHandle s \<le> h" by (simp add: f)
    from inv_fresh [OF assms n] fresh [OF n]
    show "closures ?f h = None \<and> promises ?f h = None \<and> h \<notin> set (microtasks ?f) \<and>
          outcomes ?f h = None \<and> timers ?f h = None \<and> \<not> writes ?f h"
      by (simp add: f(1,2,4-12))
  next
    fix h c
    assume "closures ?f h = Some c"
    then have "closures s h = Some c" by (simp add: f)
    from inv_closure_id [OF assms this] show "\<exists>n. c_id c = NumId n \<and> n < nextRequestId ?f"
      by (simp add: f)
  next
    fix h h' c c'
    assume "closures ?f h = Some c" "closures ?f h' = Some c'" "c_id c = c_id c'"
    then show "h = h'"
      using inv_closure_inj [OF assms, of h c h' c'] by (simp add: f)
  next
    fix h
    assume "h < nextHandle ?f" "promises ?f h = None"
    with settled [of h] show "\<exists>c. closures ?f h = Some c \<and> map_of (pendingRequests ?f) (c_id c) = Some h"
      by (simp add: f(8))
  next
    fix h
    assume "timers ?f h \<noteq> None"
    then have "timers s h \<noteq> None" by (simp add: f)
    from inv_timer_closure [OF assms this] show "closures ?f h \<noteq> None" by (simp add: f)
  next
    fix h
    assume a: "outcomes ?f h \<noteq> None"
    have "h < nextHandle s"
    proof (rule ccontr)
      assume "\<not> h < nextHandle s"
      then have "nextHandle s \<le> h" by simp
      from fresh [OF this] a show False by simp
    qed
    from settled [OF this] show "promises ?f h \<noteq> None \<and> h \<notin> set (microtasks ?f)"
      by (simp add: f(2))
  qed
qed

lemma initialize_inv:
  assumes "client_inv s"
  shows "client_inv (snd (initialize params s))"
proof (cases "connectionStatus s = Connected")
  case False
  then show ?thesis using assms by (simp add: initialize_def)
next
  case True
  let ?s1 = "logged LInfo ''Initializing MCP session'' (s\<lparr>connectionStatus := Initializing\<rparr>)"
  have "client_inv ?s1" by (intro logged_inv phase_inv assms) simp
  moreover have "connectionStatus ?s1 \<noteq> Disconnected" by (simp add: logged_def)
  ultimately have "client_inv (snd (request KInitialize ''initialize'' p None ?s1))" for p
    by (rule request_inv)
  with True show ?thesis by (simp add: initialize_def Let_def split_beta)
qed

lemma ready_gated_inv:
  assumes "client_inv s"
  shows "client_inv (snd (ready_gated k m p s))"
proof (cases "connectionStatus s = Ready")
  case False
  then show ?thesis using assms by (simp add: ready_gated_def ensureReady_def)
next
  case True
  then have "connectionStatus s \<noteq> Disconnected" by simp
  from request_inv [OF assms this] True show ?thesis
    by (simp add: ready_gated_def ensureReady_def split_beta)
qed

lemma callTool_inv:
  assumes "client_inv s"
  shows "client_inv (snd (callTool name args s))"
proof (cases "connectionStatus s = Ready")
  case False
  then show ?thesis using assms by (simp add: callTool_def ensureReady_def)
next
  case True
  from ready_gated_inv [OF logged_inv [OF assms]] True show ?thesis
    by (simp add: callTool_def ensureReady_def)
qed

lemma getHealthStatus_inv:
  assumes "client_inv s"
  shows "client_inv (snd (getHealthStatus s))"
proof (cases "connectionStatus s = Ready")
  case False
  then show ?thesis using assms by (simp add: getHealthStatus_def Let_def)
next
  case True
  then have "connectionStatus s \<noteq> Disconnected" by simp
  from request_inv [OF assms this] True show ?thesis
    by (simp add: getHealthStatus_def Let_def split_beta)
qed

lemma step_inv:
  assumes "client_inv s"
  shows "client_inv (step e s)"
  using assms
  by (cases e)
     (simp_all add: connect_inv disconnect_inv initialize_inv ready_gated_inv callTool_inv
        sendNotification_inv getHealthStatus_inv processMessage_inv timer_fires_inv
        write_fails_inv write_done_inv resumes_inv tick_inv
        listTools_def listPrompts_def listResources_def getPrompt_def getResource_def)

lemma run_inv: "client_inv s \<Longrightarrow> client_inv (run evs s)"
  unfolding run_def by (induction evs arbitrary: s) (simp_all add: step_inv)

lemma run_init_inv: "client_inv (run evs (init cfg))"
  by (rule run_inv [OF init_inv])

lemma run_append: "run (xs @ ys) s = run ys (run xs s)"
  by (simp add: run_def)

lemma run_Cons: "run (e # es) s = run es (step e s)"
  by (simp add: run_def)

lemma run_Nil: "run [] s = s"
  by (simp add: run_def)

section \<open>Settlements are final\<close>

lemma stable_refl: "stable s s"
  by (simp add: stable_def)

lemma stable_promise: "stable s s' \<Longrightarrow> promises s h = Some v \<Longrightarrow> promises s' h = Some v"
  unfolding stable_def by blast


lemma stable_trans: "stable s s' \<Longrightarrow> stable s' s'' \<Longrightarrow> stable s s''"
  unfolding stable_def by blast

lemma stable_frame: "promises s' = promises s \<Longrightarrow> outcomes s' = outcomes s \<Longrightarrow> stable s s'"
  by (simp add: stable_def)

lemma settle_stable: "stable s0 s \<Longrightarrow> stable s0 (settle h v s)"
  unfolding stable_def by (auto simp add: settle_promises settle_fields)

lemma woken_stable:
  assumes "client_inv s" and "woken s s'"
  shows "stable s s'"
proof -
  have "outcomes s' h = Some r" if "outcomes s h = Some r" for h r
  proof (rule ccontr)
    assume "outcomes s' h \<noteq> Some r"
    with that have "outcomes s' h \<noteq> outcomes s h" by simp
    with assms(2) have "h \<in> set (microtasks s)" unfolding woken_def by blast
    moreover from inv_outcome [OF assms(1), of h] that have "h \<notin> set (microtasks s)" by simp
    ultimately show False by simp
  qed
  moreover from assms(2) have "promises s' = promises s" unfolding woken_def by simp
  ultimately show ?thesis unfolding stable_def by simp
qed

lemma request_stable:
  assumes "client_inv s"
  shows "stable s (snd (request k m p tmo s))"
proof -
  from inv_fresh [OF assms, of "nextHandle s"]
  have n: "promises s (nextHandle s) = None" "outcomes s (nextHandle s) = None" by simp_all
  show ?thesis
  proof (cases "connectionStatus s = Disconnected \<or> \<not> stdin s")
    case True
    from n show ?thesis unfolding stable_def by (auto simp add: request_not_sent [OF True])
  next
    case False
    then have a: "connectionStatus s \<noteq> Disconnected" "stdin s" by simp_all
    from n show ?thesis unfolding stable_def by (auto simp add: request_sent [OF a])
  qed
qed

lemma processMessage_stable: "stable s (processMessage parsed s)"
  by (auto simp add: processMessage_def logged_def handleNotification_def Let_def stable_frame
      split: option.split intro!: settle_stable)

lemma timer_fires_stable: "stable s (timer_fires h s)"
  by (auto simp add: timer_fires_def timeout_callback_def stable_frame stable_refl
      split: option.split intro!: settle_stable)

lemma write_fails_stable: "stable s (write_fails h s)"
  by (auto simp add: write_fails_def write_callback_def stable_frame stable_refl
      split: option.split intro!: settle_stable)

lemma disconnect_stable:
  assumes "client_inv s"
  shows "stable s (snd (disconnect env s))"
proof (cases "connectionStatus s = Disconnected")
  case True
  then show ?thesis by (simp add: disconnect_idle stable_refl)
next
  case False
  note f = disconnect_effect [OF False, of env]
  have "outcomes (snd (disconnect env s)) h = Some r" if "outcomes s h = Some r" for h r
  proof (rule ccontr)
    assume "outcomes (snd (disconnect env s)) h \<noteq> Some r"
    with that have "outcomes (snd (disconnect env s)) h \<noteq> outcomes s h" by simp
    from f(13) [OF this] have q: "h \<in> set (microtasks (disconnect_begin s))" by simp
    from inv_outcome [OF assms, of h] that
    have "promises s h \<noteq> None" "h \<notin> set (microtasks s)" by simp_all
    with q show False by (simp add: disconnect_begin_microtasks)
  qed
  moreover have "promises (snd (disconnect env s)) h = Some v" if "promises s h = Some v" for h v
    using that by (simp add: f disconnect_begin_promises)
  ultimately show ?thesis unfolding stable_def by blast
qed

lemma initialize_stable:
  assumes "client_inv s"
  shows "stable s (snd (initialize params s))"
proof (cases "connectionStatus s = Connected")
  case False
  then show ?thesis by (simp add: initialize_def stable_refl)
next
  case True
  let ?s1 = "logged LInfo ''Initializing MCP session'' (s\<lparr>connectionStatus := Initializing\<rparr>)"
  have i: "client_inv ?s1" by (intro logged_inv phase_inv assms) simp
  have "stable s ?s1" by (simp add: stable_frame logged_def)
  from stable_trans [OF this request_stable [OF i]] True show ?thesis
    by (simp add: initialize_def Let_def split_beta)
qed

lemma ready_gated_stable:
  assumes "client_inv s"
  shows "stable s (snd (ready_gated k m p s))"
  using request_stable [OF assms]
  by (simp add: ready_gated_def stable_refl split_beta split: option.split)

lemma callTool_stable:
  assumes "client_inv s"
  shows "stable s (snd (callTool name args s))"
proof -
  have "stable s (logged LDebug ''Calling tool'' s)" by (simp add: stable_frame logged_def)
  from stable_trans [OF this ready_gated_stable [OF logged_inv [OF assms]]]
  show ?thesis by (simp add: callTool_def stable_refl split: option.split)
qed

lemma getHealthStatus_stable:
  assumes "client_inv s"
  shows "stable s (snd (getHealthStatus s))"
  using request_stable [OF assms]
  by (simp add: getHealthStatus_def Let_def stable_refl split_beta)

lemma step_stable:
  assumes "client_inv s"
  shows "stable s (step e s)"
proof (cases e)
  case (Connect spawned)
  then show ?thesis by (simp add: connect_def Let_def logged_def stable_frame stable_refl)
next
  case (SendNotification n wrote)
  then show ?thesis by (simp add: sendNotification_def logged_def stable_frame stable_refl)
next
  case (Resumes h)
  then show ?thesis by (simp add: woken_stable [OF assms resumes_woken])
qed (simp_all add: disconnect_stable initialize_stable ready_gated_stable callTool_stable
      getHealthStatus_stable processMessage_stable timer_fires_stable write_fails_stable
      assms listTools_def listPrompts_def listResources_def getPrompt_def getResource_def
      write_done_def tick_def stable_frame)

lemma run_stable: "client_inv s \<Longrightarrow> stable s (run evs s)"
proof (induction evs arbitrary: s)
  case Nil
  show ?case by (simp add: run_Nil stable_refl)
next
  case (Cons e evs)
  from stable_trans [OF step_stable [OF Cons.prems] Cons.IH [OF step_inv [OF Cons.prems]]]
  show ?case by (simp add: run_Cons)
qed

section \<open>Handles and the clock only grow\<close>

lemma advances_refl: "advances s s"
  by (simp add: advances_def)

lemma advances_trans:
  assumes "advances s s'" and "advances s' s''"
  shows "advances s s''"
proof -
  from assms have a: "nextHandle s \<le> nextHandle s''" "now s \<le> now s''"
    unfolding advances_def by simp_all
  have "awaiting s'' h = awaiting s h \<and> closures s'' h = closures s h" if "h < nextHandle s" for h
  proof -
    from that assms(1) have "h < nextHandle s'" unfolding advances_def by simp
    with assms(2) have "awaiting s'' h = awaiting s' h \<and> closures s'' h = closures s' h"
      unfolding advances_def by blast
    moreover from that assms(1) have "awaiting s' h = awaiting s h \<and> closures s' h = closures s h"
      unfolding advances_def by blast
    ultimately show ?thesis by simp
  qed
  with a show ?thesis unfolding advances_def by blast
qed

lemma advances_frame:
  "nextHandle s' = nextHandle s \<Longrightarrow> now s' = now s \<Longrightarrow> awaiting s' = awaiting s \<Longrightarrow>
   closures s' = closures s \<Longrightarrow> advances s s'"
  by (simp add: advances_def)

lemma settle_advances: "advances s0 s \<Longrightarrow> advances s0 (settle h v s)"
  unfolding advances_def by (simp add: settle_fields)

lemma woken_advances: "woken s s' \<Longrightarrow> advances s s'"
  unfolding woken_def advances_def by simp

lemma request_advances: "advances s (snd (request k m p tmo s))"
proof (cases "connectionStatus s = Disconnected \<or> \<not> stdin s")
  case True
  show ?thesis unfolding advances_def by (simp add: request_not_sent [OF True])
next
  case False
  then have a: "connectionStatus s \<noteq> Disconnected" "stdin s" by simp_all
  show ?thesis unfolding advances_def by (simp add: request_sent [OF a])
qed

lemma processMessage_advances: "advances s (processMessage parsed s)"
  by (auto simp add: processMessage_def logged_def handleNotification_def Let_def advances_frame
      split: option.split intro!: settle_advances)

lemma timer_fires_advances: "advances s (timer_fires h s)"
  by (auto simp add: timer_fires_def timeout_callback_def advances_frame advances_refl
      split: option.split intro!: settle_advances)

lemma write_fails_advances: "advances s (write_fails h s)"
  by (auto simp add: write_fails_def write_callback_def advances_frame advances_refl
      split: option.split intro!: settle_advances)

lemma disconnect_advances: "advances s (snd (disconnect env s))"
proof (cases "connectionStatus s = Disconnected")
  case True
  then show ?thesis by (simp add: disconnect_idle advances_refl)
next
  case False
  show ?thesis by (rule advances_frame) (simp_all add: disconnect_effect [OF False])
qed

lemma initialize_advances: "advances s (snd (initialize params s))"
proof (cases "connectionStatus s = Connected")
  case False
  then show ?thesis by (simp add: initialize_def advances_refl)
next
  case True
  let ?s1 = "logged LInfo ''Initializing MCP session'' (s\<lparr>connectionStatus := Initializing\<rparr>)"
  have "advances s ?s1" by (simp add: advances_frame logged_def)
  from advances_trans [OF this request_advances] True show ?thesis
    by (simp add: initialize_def Let_def split_beta)
qed

lemma ready_gated_advances: "advances s (snd (ready_gated k m p s))"
  using request_advances [of s k m p None]
  by (simp add: ready_gated_def advances_refl split_beta split: option.split)

lemma callTool_advances: "advances s (snd (callTool name args s))"
proof -
  have "advances s (logged LDebug ''Calling tool'' s)" by (simp add: advances_frame logged_def)
  from advances_trans [OF this ready_gated_advances]
  show ?thesis by (simp add: callTool_def advances_refl split: option.split)
qed

lemma getHealthStatus_advances: "advances s (snd (getHealthStatus s))"
  using request_advances [of s _ "''ping''" None "Some 1000"]
  by (simp add: getHealthStatus_def Let_def advances_refl split_beta)

lemma step_advances: "advances s (step e s)"
proof (cases e)
  case (Connect spawned)
  then show ?thesis by (simp add: connect_def Let_def logged_def advances_frame advances_refl)
next
  case (SendNotification n wrote)
  then show ?thesis by (simp add: sendNotification_def logged_def advances_frame advances_refl)
next
  case (Resumes h)
  then show ?thesis by (simp add: woken_advances [OF resumes_woken])
next
  case (Tick d)
  then show ?thesis by (simp add: tick_def advances_def)
qed (simp_all add: disconnect_advances initialize_advances ready_gated_advances callTool_advances
      getHealthStatus_advances processMessage_advances timer_fires_advances write_fails_advances
      listTools_def listPrompts_def listResources_def getPrompt_def getResource_def
      write_done_def advances_frame)

lemma run_advances: "advances s (run evs s)"
proof (induction evs arbitrary: s)
  case Nil
  show ?case by (simp add: run_Nil advances_refl)
next
  case (Cons e evs)
  from advances_trans [OF step_advances Cons.IH] show ?case by (simp add: run_Cons)
qed

lemma awaiting_kept: "h < nextHandle s \<Longrightarrow> awaiting (run evs s) h = awaiting s h"
  using run_advances [of s evs] unfolding advances_def by blast


lemma clock_grows: "now s \<le> now (run evs s)"
  using run_advances [of s evs] unfolding advances_def by blast

section \<open>A request waits until an event ends its wait\<close>





lemma find_pending_None:
  assumes "field ''id'' message = Some j"
    and "\<And>k. key_of j = Some k \<Longrightarrow> map_of (pendingRequests s) k = None"
  shows "find_pending message s = None"
  using assms by (cases "key_of j") (simp_all add: find_pending_def)

lemma processMessage_matching:
  assumes "field ''jsonrpc'' message = Some (JStr ''2.0'')"
    and "find_pending message s = Some (k, h)"
  shows "processMessage (Some message) s =
           settle h (Resolved message)
             (s\<lparr>pendingRequests := AList.delete k (pendingRequests s),
                timers := (timers s)(h := None)\<rparr>)"
  using assms by (simp add: processMessage_def)








section \<open>What the code after an await does with a response\<close>








section \<open>Scenarios evaluated\<close>

lemmas scenario_defs = run_def init_def default_config_def connect_def logged_def initialize_def
  request_def getNextRequestId_def sendRequest_def disconnect_def disconnect_begin_def
  reject_all_def settle_def resumes_def drain_def initialize_resume_def initialize_failed_def
  disconnect_cleanup_def Let_def processMessage_def find_pending_def success_response_def
  error_response_def response_error_def effective_timeout_def timer_delay_def ready_gated_def
  ensureReady_def listTools_def list_resume_def get_resume_def health_resume_def
  getHealthStatus_def current_metrics_def template_def timer_fires_def timeout_callback_def
  write_fails_def write_callback_def write_done_def tick_def

lemma ready_client_fields:
  "connectionStatus ready_client = Ready" "stdin ready_client" "pendingRequests ready_client = []"
  "nextRequestId ready_client = 2" "nextHandle ready_client = 1" "microtasks ready_client = []"
  "promises ready_client 0 = Some (Resolved (success_response 1))" "now ready_client = 0"
  "buffer ready_client = []" "config ready_client = default_config"
  by (simp_all add: ready_client_def scenario_defs)

lemma ready_client_reachable:
  "ready_client =
     run [Connect True, Initialize None, Line (Some (success_response 1)), Resumes 0]
       (init default_config)"
  by (rule ready_client_def)

section \<open>Helper facts about the operations\<close>

lemma disconnect_quiet:
  assumes "connectionStatus s \<noteq> Disconnected" and "pendingRequests s = []" and "microtasks s = []"
  shows "connectionStatus (snd (disconnect env s)) = Disconnected"
proof -
  let ?b = "disconnect_begin s"
  from assms(2,3) have "set (microtasks ?b) = {}" by (simp add: disconnect_begin_microtasks)
  then have q: "microtasks ?b = []" by simp
  then have d: "drain ?b = ?b" by (simp add: drain_def)
  from q have "drain (snd (disconnect_cleanup env ?b)) = snd (disconnect_cleanup env ?b)"
    by (simp add: drain_def disconnect_cleanup_fields)
  with d assms(1) have "connectionStatus (snd (disconnect env s)) = connectionStatus ?b"
    by (simp add: disconnect_def Let_def split_beta disconnect_cleanup_fields)
  then show ?thesis by (simp add: disconnect_begin_fields)
qed


lemma ready_gated_not_ready:
  "connectionStatus s \<noteq> Ready \<Longrightarrow>
   ready_gated k m p s = (Failed (MCPConnectionError (''Client not ready, current status: '' @ phase_name (connectionStatus s))), s)"
  by (simp add: ready_gated_def ensureReady_def)




section \<open>The claims\<close>

subsection \<open>Responses settle the caller of sendRequest\<close>




subsection \<open>Exactly one settlement for each request\<close>




subsection \<open>The phases in which initialize is legal\<close>




subsection \<open>Connecting again after a disconnect\<close>

text \<open>
  Claim C4, as stated, fails: after \<open>connect\<close> and \<open>disconnect\<close> the same client
  connects again.
\<close>

theorem reconnect_counterexample:
  "fst (connect True (run [Connect True, Disconnect Smooth] (init default_config))) = Returned RVoid \<and>
   connectionStatus (snd (connect True (run [Connect True, Disconnect Smooth] (init default_config)))) =
     Connected"
  by (simp add: scenario_defs)

text \<open>
  Claim C4, amended.  A client is reusable: from a disconnected client, whatever its
  history, \<open>connect\<close> followed by \<open>disconnect\<close> leaves the phase disconnected, and
  \<open>connect\<close> on the same client is accepted again and moves to connected when the
  server process starts.
\<close>

theorem reconnect_after_disconnect:
  assumes "s = run evs (init cfg)" and "connectionStatus s = Disconnected"
  shows "connectionStatus (snd (connect True s)) = Connected \<and>
         connectionStatus (snd (disconnect env (snd (connect True s)))) = Disconnected \<and>
         fst (connect True (snd (disconnect env (snd (connect True s))))) = Returned RVoid \<and>
         connectionStatus (snd (connect True (snd (disconnect env (snd (connect True s)))))) = Connected"
proof -
  have "client_inv s" unfolding assms(1) by (rule run_init_inv)
  from inv_disconnected [OF this assms(2)] inv_disconnected_queue [OF this assms(2)]
  have e: "pendingRequests s = []" "microtasks s = []" by simp_all
  let ?c = "snd (connect True s)"
  from assms(2) e have c: "connectionStatus ?c = Connected" "pendingRequests ?c = []"
    "microtasks ?c = []"
    by (simp_all add: connect_def logged_def Let_def)
  from c have c': "connectionStatus ?c \<noteq> Disconnected" by simp
  let ?d = "snd (disconnect env ?c)"
  from disconnect_quiet [OF c' c(2,3)] have d: "connectionStatus ?d = Disconnected" .
  from d have "fst (connect True ?d) = Returned RVoid" "connectionStatus (snd (connect True ?d)) = Connected"
    by (simp_all add: connect_def logged_def Let_def)
  with c d show ?thesis by simp
qed

text \<open>The same for a fresh client.\<close>

theorem reconnect_after_disconnect_witness:
  "connectionStatus (init default_config) = Disconnected \<and>
   connectionStatus (snd (connect True (snd (disconnect Smooth (snd (connect True (init default_config))))))) =
     Connected"
proof -
  have a: "init default_config = run [] (init default_config)" by (simp add: run_def)
  have b: "connectionStatus (init default_config) = Disconnected" by (simp add: init_def)
  from reconnect_after_disconnect [OF a b, of Smooth] b show ?thesis by simp
qed

subsection \<open>Disconnecting twice\<close>

text \<open>
  Claim C5 says that a second consecutive \<open>disconnect\<close> is a no-op.  With a handshake
  pending this is not what the code does: the first \<open>disconnect\<close> rejects the promise
  of \<open>initialize\<close>; at the first await of the teardown \<open>initialize\<close> resumes, and its
  \<open>catch\<close> block sets the phase back to connected; so the client is in phase connected
  after the first call, and the second call runs the teardown again and changes the
  phase.
\<close>

theorem second_disconnect_after_pending_initialize:
  "connectionStatus (run [Connect True, Initialize None, Disconnect Smooth] (init default_config)) =
     Connected \<and>
   fst (disconnect Smooth (run [Connect True, Initialize None, Disconnect Smooth] (init default_config))) =
     Returned RVoid \<and>
   connectionStatus
     (snd (disconnect Smooth (run [Connect True, Initialize None, Disconnect Smooth] (init default_config)))) =
     Disconnected"
  by (simp add: scenario_defs)

subsection \<open>Operations that need a ready client\<close>

text \<open>
  Claim C6.  While the phase is not ready, each of \<open>listTools\<close>, \<open>listPrompts\<close>,
  \<open>listResources\<close>, \<open>callTool\<close>, \<open>getPrompt\<close> and \<open>getResource\<close> fails at once with a
  connection error that names the current phase, and the client, with the frames handed
  to the transport, is unchanged.
\<close>

theorem not_ready_fails_fast:
  assumes "connectionStatus s \<noteq> Ready"
  shows "(let e = Failed (MCPConnectionError
                     (''Client not ready, current status: '' @ phase_name (connectionStatus s)))
          in listTools s = (e, s) \<and> listPrompts s = (e, s) \<and> listResources s = (e, s) \<and>
             callTool name args s = (e, s) \<and> getPrompt pname pargs s = (e, s) \<and>
             getResource uri s = (e, s))"
  using assms
  by (simp add: Let_def listTools_def listPrompts_def listResources_def callTool_def getPrompt_def
      getResource_def ready_gated_not_ready) (simp add: ensureReady_def)

text \<open>The same for a fresh client, whose phase is disconnected.\<close>

theorem not_ready_fails_fast_witness:
  "connectionStatus (init default_config) \<noteq> Ready \<and>
   listTools (init default_config) =
     (Failed (MCPConnectionError ''Client not ready, current status: disconnected''), init default_config) \<and>
   written (snd (callTool ''echo'' None (init default_config))) = []"
  using not_ready_fails_fast [of "init default_config" "''echo''" None "''p''" None "''u''"]
  by (simp add: init_def Let_def)


subsection \<open>Timeouts\<close>




subsection \<open>The phases of connect\<close>

text \<open>
  Claim C8.  In a phase other than disconnected \<open>connect\<close> fails with a connection
  error and changes nothing; in phase disconnected it ends in phase connected when the
  server process starts, and fails and ends in phase disconnected when it does not.
\<close>

theorem connect_phases:
  "(connectionStatus s \<noteq> Disconnected \<longrightarrow>
      connect spawned s = (Failed (MCPConnectionError ''Client already connected or connecting''), s)) \<and>
   (connectionStatus s = Disconnected \<and> spawned \<longrightarrow>
      fst (connect spawned s) = Returned RVoid \<and>
      connectionStatus (snd (connect spawned s)) = Connected) \<and>
   (connectionStatus s = Disconnected \<and> \<not> spawned \<longrightarrow>
      fst (connect spawned s) = Failed (MCPConnectionError ''Failed to start MCP server process'') \<and>
      connectionStatus (snd (connect spawned s)) = Disconnected)"
  by (simp add: connect_def logged_def Let_def)

text \<open>The three cases for a fresh client and for the client it connects to.\<close>

theorem connect_phases_witness:
  "connectionStatus (init default_config) = Disconnected \<and>
   connectionStatus (snd (connect True (init default_config))) = Connected \<and>
   connectionStatus (snd (connect False (init default_config))) = Disconnected \<and>
   connectionStatus (snd (connect True (init default_config))) \<noteq> Disconnected \<and>
   fst (connect True (snd (connect True (init default_config)))) =
     Failed (MCPConnectionError ''Client already connected or connecting'')"
  using connect_phases [of "init default_config" True] connect_phases [of "init default_config" False]
    connect_phases [of "snd (connect True (init default_config))" True]
  by (simp add: init_def)

subsection \<open>Responses that match no request\<close>

text \<open>
  Claim C9.  A response whose id is not a key of the pending table only adds a warning
  to the log: the table, every promise and all other state are as before, and
  \<open>processMessage\<close> returns.
\<close>

theorem unmatched_response_dropped:
  assumes "field ''jsonrpc'' message = Some (JStr ''2.0'')"
    and "field ''id'' message = Some i"
    and "\<And>k. key_of i = Some k \<Longrightarrow> map_of (pendingRequests s) k = None"
  shows "processMessage (Some message) s =
           s\<lparr>log := log s @ [(LWarn, ''Received unexpected message'')]\<rparr>"
  using assms(1,2) find_pending_None [OF assms(2,3)]
  by (simp add: processMessage_def logged_def)

text \<open>A response to request 7 at a ready client with nothing pending.\<close>

theorem unmatched_response_dropped_witness:
  "processMessage (Some (success_response 7)) ready_client =
     ready_client\<lparr>log := log ready_client @ [(LWarn, ''Received unexpected message'')]\<rparr>"
proof -
  have m: "field ''jsonrpc'' (success_response 7) = Some (JStr ''2.0'')"
    "field ''id'' (success_response 7) = Some (JNum 7)"
    by (simp_all add: success_response_def)
  have t: "map_of (pendingRequests ready_client) k = None" for k
    by (simp add: ready_client_fields)
  from unmatched_response_dropped [OF m t] show ?thesis .
qed

subsection \<open>The health check and an error response to its ping\<close>

text \<open>
  The health check reads the phase when it resumes, not when the response to its ping
  arrives.  When \<open>disconnect\<close> is called between the two, the check resumes at the first
  await of the teardown and reports \<open>healthy: false\<close>, without an error.
\<close>

lemma health_check_after_disconnect:
  "outcomes (run [GetHealthStatus, Line (Some (error_response 2)), Disconnect Smooth] ready_client) 1 =
     Some (Inr (RHealth \<lparr>healthy = False, h_error = None,
        h_metrics = \<lparr>m_pendingRequests = 0, m_bufferSize = 0, m_connectionStatus = 1\<rparr>\<rparr>))"
  by (simp add: ready_client_def scenario_defs)

text \<open>
  Claim C10.  Let \<open>getHealthStatus\<close> be called on a ready client, in a state that a run
  of events reaches from a fresh client: it sends the ping and waits.  Whatever happens
  next, when the ping is still pending, a response to the ping that carries an error
  payload resolves the promise and queues the health check.  Whatever happens then, when
  the health check resumes it reports no error, the metrics taken at the call, and
  \<open>healthy\<close> as the phase is at that moment: \<open>healthy: true\<close> when the client is in phase
  ready.  The error payload of the response plays no part.
\<close>

theorem health_ignores_ping_error:
  assumes "s0 = run before (init cfg)"
    and "connectionStatus s0 = Ready" and "stdin s0"
    and "s2 = run later (snd (getHealthStatus s0))"
    and "map_of (pendingRequests s2) (NumId (nextRequestId s0)) = Some (nextHandle s0)"
    and "field ''jsonrpc'' response = Some (JStr ''2.0'')"
    and "field ''id'' response = Some (JNum (nextRequestId s0))"
    and "truthy (field ''error'' response)"
    and "s3 = run between (processMessage (Some response) s2)"
    and "nextHandle s0 \<in> set (microtasks s3)"
  shows "fst (getHealthStatus s0) = Suspended (nextHandle s0) \<and>
         promises (processMessage (Some response) s2) (nextHandle s0) = Some (Resolved response) \<and>
         nextHandle s0 \<in> set (microtasks (processMessage (Some response) s2)) \<and>
         outcomes (resumes (nextHandle s0) s3) (nextHandle s0) =
           Some (Inr (RHealth \<lparr>healthy = (connectionStatus s3 = Ready), h_error = None,
                               h_metrics = current_metrics s0\<rparr>)) \<and>
         (connectionStatus s3 = Ready \<longrightarrow>
            outcomes (resumes (nextHandle s0) s3) (nextHandle s0) =
              Some (Inr (RHealth \<lparr>healthy = True, h_error = None, h_metrics = current_metrics s0\<rparr>)))"
proof -
  let ?h = "nextHandle s0"
  let ?i = "NumId (nextRequestId s0)"
  let ?k = "KHealth (current_metrics s0)"
  let ?s1 = "snd (request ?k ''ping'' None (Some 1000) s0)"
  let ?pm = "processMessage (Some response) s2"
  have inv0: "client_inv s0" unfolding assms(1) by (rule run_init_inv)
  from assms(2) have ok: "connectionStatus s0 \<noteq> Disconnected" by simp
  note sent = request_sent [OF ok assms(3), of ?k "''ping''" None "Some 1000"]
  have g: "getHealthStatus s0 = (Suspended ?h, ?s1)"
    using assms(2) by (simp add: getHealthStatus_def Let_def split_beta request_handle)
  have inv1: "client_inv ?s1" by (rule request_inv [OF inv0 ok])
  have s2: "s2 = run later ?s1" by (simp add: assms(4) g)
  have inv2: "client_inv s2" unfolding s2 by (rule run_inv [OF inv1])
  have "awaiting s2 ?h = awaiting ?s1 ?h"
    unfolding s2 by (rule awaiting_kept) (simp add: sent)
  then have aw2: "awaiting s2 ?h = Some ?k" by (simp add: sent)
  from inv_entry [OF inv2 assms(5)] have un: "promises s2 ?h = None" by simp
  from inv_entry_handle [OF inv2 assms(5)] have h2: "?h < nextHandle s2" .
  have fp: "find_pending response s2 = Some (?i, ?h)"
    using assms(7,5) by (simp add: find_pending_def)
  note pm = processMessage_matching [OF assms(6) fp]
  have p: "promises ?pm ?h = Some (Resolved response)"
    using un by (simp add: pm settle_promises)
  have q: "?h \<in> set (microtasks ?pm)"
    using un by (simp add: pm settle_microtasks)
  have apm: "awaiting ?pm ?h = Some ?k" "?h < nextHandle ?pm"
    using aw2 h2 by (simp_all add: pm settle_fields)
  have invp: "client_inv ?pm" by (rule processMessage_inv [OF inv2])
  from stable_promise [OF run_stable [OF invp] p]
  have p3: "promises s3 ?h = Some (Resolved response)" by (simp add: assms(9))
  have "awaiting s3 ?h = awaiting ?pm ?h"
    unfolding assms(9) by (rule awaiting_kept [OF apm(2)])
  with apm(1) have a3: "awaiting s3 ?h = Some ?k" by simp
  have o: "outcomes (resumes ?h s3) ?h =
      Some (Inr (RHealth \<lparr>healthy = (connectionStatus s3 = Ready), h_error = None,
                          h_metrics = current_metrics s0\<rparr>))"
    by (simp add: resumes_outcome [OF assms(10) p3 a3] health_resume_def)
  then have "connectionStatus s3 = Ready \<longrightarrow>
      outcomes (resumes ?h s3) ?h =
        Some (Inr (RHealth \<lparr>healthy = True, h_error = None, h_metrics = current_metrics s0\<rparr>))"
    by simp
  with o p q show ?thesis by (simp add: g)
qed

text \<open>
  The error response to the ping of a ready client, after an unrelated line of the
  server, with a call of \<open>listTools\<close> before the health check resumes.
\<close>

theorem health_ignores_ping_error_witness:
  "fst (getHealthStatus ready_client) = Suspended 1 \<and>
   outcomes (resumes 1 (run [ListTools]
      (processMessage (Some (error_response 2))
         (run [Line (Some (success_response 9))] (snd (getHealthStatus ready_client)))))) 1 =
     Some (Inr (RHealth \<lparr>healthy = True, h_error = None,
        h_metrics = \<lparr>m_pendingRequests = 0, m_bufferSize = 0, m_connectionStatus = 1\<rparr>\<rparr>))"
proof -
  let ?s1 = "snd (getHealthStatus ready_client)"
  let ?s2 = "run [Line (Some (success_response 9))] ?s1"
  let ?s3 = "run [ListTools] (processMessage (Some (error_response 2)) ?s2)"
  have m: "field ''jsonrpc'' (error_response 2) = Some (JStr ''2.0'')"
    "field ''id'' (error_response 2) = Some (JNum (nextRequestId ready_client))"
    "truthy (field ''error'' (error_response 2))"
    by (simp_all add: error_response_def ready_client_fields)
  have c: "current_metrics ready_client =
      \<lparr>m_pendingRequests = 0, m_bufferSize = 0, m_connectionStatus = 1\<rparr>"
    by (simp add: current_metrics_def ready_client_fields)
  have s2: "map_of (pendingRequests ?s2) (NumId (nextRequestId ready_client)) =
      Some (nextHandle ready_client)"
    by (simp add: ready_client_def scenario_defs)
  have s3: "nextHandle ready_client \<in> set (microtasks ?s3)" "connectionStatus ?s3 = Ready"
    by (simp_all add: ready_client_def scenario_defs)
  from health_ignores_ping_error [OF ready_client_reachable ready_client_fields(1,2) refl s2 m refl s3(1)]
    c s3(2)
  show ?thesis by (simp add: ready_client_fields)
qed

end
